theory Spec2Isabelle
  imports Complex_Main "HOL-Library.Multiset"
begin

section \<open>Errors\<close>

text \<open>
  The exceptions of the Python source are values.  \<open>ZeroDivisionError\<close> and \<open>ValueError\<close>
  are what the source's own operations raise (integer floor division by zero; a negative
  array dimension, an empty transform, \<open>max\<close> of an empty dictionary).  \<open>UndefinedView\<close>
  stands for a strided view that addresses memory outside its buffer: numpy performs no
  bounds check there and the values read are not defined.  The last three constructors are
  the conditions the specification names; no path of the source raises them.
\<close>

datatype error =
    ZeroDivisionError
  | ValueError
  | UndefinedView
  | InvalidWindowConfiguration
  | MalformedFrame
  | NoCommonLandmarks

section \<open>Spectral analyzer: \<open>fourier_magnitudes\<close>\<close>

text \<open>
  \<open>np.fft.fft\<close> is the discrete Fourier transform
  \<open>A\<^sub>k = \<Sum>\<^sub>m a\<^sub>m exp (- 2 \<pi> i m k / n)\<close>; it raises \<open>ValueError\<close> on an empty input, which
  \<open>fourier_magnitudes\<close> propagates.  Samples and magnitudes are exact reals here, whereas the
  source computes in binary64: the transform, the modulus and the scaling by \<open>100\<close> inside
  \<open>np.round\<close> are rounded there.  The value of a magnitude in this model is that of the source
  only where those operations are exact, as on the small integer spectra evaluated below;
  what is stated for every frame is the number of magnitudes and the failure, which do not
  depend on the arithmetic.
\<close>

definition fft :: "real list \<Rightarrow> complex list" where
  "fft a = map (\<lambda>k. \<Sum>m<length a. complex_of_real (a ! m) *
                   cis (- (2 * pi * real m * real k / real (length a))))
               [0..<length a]"

text \<open>\<open>np.rint\<close>: round to the nearest integer, halves to the even neighbour.\<close>

definition rint :: "real \<Rightarrow> int" where
  "rint x = (let f = \<lfloor>x\<rfloor>; d = x - of_int f
             in if d < 1 / 2 then f
                else if 1 / 2 < d then f + 1
                else if even f then f else f + 1)"

text \<open>
  \<open>np.round(x, 2)\<close> scales by \<open>100\<close>, rounds with \<open>rint\<close> and scales back; over the reals the
  two scalings are exact.
\<close>

definition round2 :: "real \<Rightarrow> real" where
  "round2 x = of_int (rint (x * 100)) / 100"

definition fourier_magnitudes :: "real list \<Rightarrow> error + real list" where
  "fourier_magnitudes signal =
     (if signal = [] then Inl ValueError
      else let fft = fft signal;
               len = length fft;
               mag = map cmod fft;
               mag = take (len div 2) mag;
               mag = map round2 mag
           in Inr mag)"

section \<open>Framer: \<open>rolling_window\<close>\<close>

text \<open>
  \<open>as_strided arr rows cols step\<close> is the view of shape \<open>(rows, cols)\<close> whose element
  \<open>(i, j)\<close> is the element \<open>i * step + j\<close> of the buffer.  numpy refuses a negative
  dimension; it does not check that the addresses lie inside the buffer.
\<close>

definition as_strided :: "real list \<Rightarrow> int \<Rightarrow> int \<Rightarrow> int \<Rightarrow> error + real list list" where
  "as_strided arr rows cols step =
     (if rows < 0 \<or> cols < 0 then Inl ValueError
      else let offs = map (\<lambda>i. map (\<lambda>j. int i * step + int j) [0..<nat cols]) [0..<nat rows]
           in if list_all (list_all (\<lambda>p. 0 \<le> p \<and> p < int (length arr))) offs
              then Inr (map (map (\<lambda>p. arr ! nat p)) offs)
              else Inl UndefinedView)"

definition rolling_window ::
    "real list \<Rightarrow> int \<Rightarrow> int \<Rightarrow> bool \<Rightarrow> error + (real list list \<times> int)" where
  "rolling_window arr window_size overlap pad =
     (let len = int (length arr);
          step_size = window_size - overlap
      in if step_size = 0 then Inl ZeroDivisionError
         else let num_windows = (len - window_size) div step_size + 1;
                  padding = max 0 ((num_windows - 1) * step_size + window_size - len);
                  arr' = (if pad then arr @ replicate (nat padding) 0 else arr)
              in case as_strided arr' num_windows window_size step_size of
                   Inl e \<Rightarrow> Inl e
                 | Inr rolled_view \<Rightarrow> Inr (rolled_view, num_windows))"

section \<open>Dictionaries in insertion order\<close>

text \<open>
  A Python \<open>dict\<close> iterates in insertion order, and the order decides ties in
  \<open>synchronize\<close>; a dictionary is an association list with distinct keys.
  \<open>setdefault_append k v d\<close> is \<open>d.setdefault(k, []).append(v)\<close>.
\<close>

fun setdefault_append :: "'k \<Rightarrow> 'v \<Rightarrow> ('k \<times> 'v list) list \<Rightarrow> ('k \<times> 'v list) list" where
  "setdefault_append k v [] = [(k, [v])]"
| "setdefault_append k v ((k', vs) # d) =
     (if k = k' then (k', vs @ [v]) # d else (k', vs) # setdefault_append k v d)"

definition lookup :: "('k \<times> 'v list) list \<Rightarrow> 'k \<Rightarrow> 'v list" where
  "lookup d k = (case map_of d k of None \<Rightarrow> [] | Some vs \<Rightarrow> vs)"

section \<open>Peak selector: \<open>to_peaks\<close>\<close>

text \<open>
  \<open>np.apply_along_axis f 1 arr\<close> on a matrix applies \<open>f\<close> to every row; it raises
  \<open>ValueError\<close> when there is no row.
\<close>

fun map_rows :: "('a \<Rightarrow> error + 'b) \<Rightarrow> 'a list \<Rightarrow> error + 'b list" where
  "map_rows f [] = Inr []"
| "map_rows f (r # rs) =
     (case f r of Inl e \<Rightarrow> Inl e
      | Inr y \<Rightarrow> (case map_rows f rs of Inl e \<Rightarrow> Inl e | Inr ys \<Rightarrow> Inr (y # ys)))"

definition apply_along_axis :: "('a \<Rightarrow> error + 'b) \<Rightarrow> 'a list \<Rightarrow> error + 'b list" where
  "apply_along_axis f arr = (if arr = [] then Inl ValueError else map_rows f arr)"

definition arange :: "int \<Rightarrow> int list" where
  "arange n = map int [0..<nat n]"

definition enumerate_py :: "'a list \<Rightarrow> (int \<times> 'a) list" where
  "enumerate_py xs = zip (map int [0..<length xs]) xs"

text \<open>
  \<open>heapq.nlargest n xs key\<close> is \<open>sorted(xs, key=key, reverse=True)[:n]\<close>: the sort is
  stable, so among equal keys the earlier element comes first; a non-positive \<open>n\<close>
  selects nothing.  The key of a peak record is its magnitude, the first component.
\<close>

definition nlargest :: "int \<Rightarrow> (real \<times> 'a) list \<Rightarrow> (real \<times> 'a) list" where
  "nlargest n xs = take (nat n) (sort_key (\<lambda>tup. - fst tup) xs)"

text \<open>The peak records \<open>(value, window_index, frequency_index)\<close> in the order of the two loops.\<close>

definition cells :: "real list list \<Rightarrow> int \<Rightarrow> (real \<times> int \<times> int) list" where
  "cells magnitudes num_windows =
     concat (map (\<lambda>(window_index, values).
                    map (\<lambda>(frequency_index, value). (value, window_index, frequency_index))
                        (enumerate_py values))
                 (zip (arange num_windows) magnitudes))"

text \<open>
  The bin of a peak record.  \<open>window_index\<close> is a numpy integer, for which floor division by
  zero gives \<open>0\<close> (with a warning), as \<open>div\<close> does; \<open>frequency_index\<close> is a Python integer, for
  which it raises, see \<open>peak_selector\<close>.
\<close>

definition bin_of :: "int \<Rightarrow> int \<Rightarrow> real \<times> int \<times> int \<Rightarrow> int \<times> int" where
  "bin_of temporal_band spectral_band tup =
     (case tup of (value, window_index, frequency_index) \<Rightarrow>
        (window_index div temporal_band, frequency_index div spectral_band))"

definition spectro_bins ::
    "real list list \<Rightarrow> int \<Rightarrow> int \<Rightarrow> int \<Rightarrow> ((int \<times> int) \<times> (real \<times> int \<times> int) list) list" where
  "spectro_bins magnitudes num_windows spectral_band temporal_band =
     fold (\<lambda>tup bins. setdefault_append (bin_of temporal_band spectral_band tup) tup bins)
          (cells magnitudes num_windows) []"

definition max_intensities ::
    "((int \<times> int) \<times> (real \<times> int \<times> int) list) list \<Rightarrow> int \<Rightarrow> (real \<times> int \<times> int) list" where
  "max_intensities bins peaks_per_bin =
     concat (map (\<lambda>(bin, bin_magnitudes). nlargest peaks_per_bin bin_magnitudes) bins)"

text \<open>Lines 94 to 108 of \<open>to_peaks\<close>: binning, selection and the peak map.\<close>

definition peak_selector ::
    "real list list \<Rightarrow> int \<Rightarrow> int \<Rightarrow> int \<Rightarrow> int \<Rightarrow> error + (int \<times> int list) list" where
  "peak_selector magnitudes num_windows spectral_band temporal_band peaks_per_bin =
     (if spectral_band = 0 \<and> cells magnitudes num_windows \<noteq> [] then Inl ZeroDivisionError
      else let bins = spectro_bins magnitudes num_windows spectral_band temporal_band
           in Inr (fold (\<lambda>(value, window_index, frequency_index) peaks.
                           setdefault_append frequency_index window_index peaks)
                        (max_intensities bins peaks_per_bin) []))"

definition to_peaks ::
    "real list \<Rightarrow> int \<Rightarrow> int \<Rightarrow> int \<Rightarrow> int \<Rightarrow> int \<Rightarrow> error + (int \<times> int list) list" where
  "to_peaks signal window_size overlap spectral_band temporal_band peaks_per_bin =
     (case rolling_window signal window_size overlap True of
        Inl e \<Rightarrow> Inl e
      | Inr (windows, num_windows) \<Rightarrow>
          (case apply_along_axis fourier_magnitudes windows of
             Inl e \<Rightarrow> Inl e
           | Inr magnitudes \<Rightarrow>
               peak_selector magnitudes num_windows spectral_band temporal_band peaks_per_bin))"

section \<open>Delay estimator: \<open>synchronize\<close>\<close>

definition delay_pairs :: "(int \<times> int list) list \<Rightarrow> (int \<times> int list) list \<Rightarrow> (int \<times> int) list" where
  "delay_pairs base_peaks other_peaks =
     concat (map (\<lambda>(key, other_frames).
                    case map_of base_peaks key of
                      None \<Rightarrow> []
                    | Some base_frames \<Rightarrow> List.product other_frames base_frames)
                 other_peaks)"

text \<open>\<open>frequencies[k] = frequencies.get(k, 0) + 1\<close>\<close>

fun dict_incr :: "int \<Rightarrow> (int \<times> nat) list \<Rightarrow> (int \<times> nat) list" where
  "dict_incr k [] = [(k, 1)]"
| "dict_incr k ((k', c) # d) =
     (if k = k' then (k', c + 1) # d else (k', c) # dict_incr k d)"

definition delay_histogram ::
    "(int \<times> int list) list \<Rightarrow> (int \<times> int list) list \<Rightarrow> (int \<times> nat) list" where
  "delay_histogram base_peaks other_peaks =
     fold (\<lambda>(a, b) frequencies. dict_incr (a - b) frequencies)
          (delay_pairs base_peaks other_peaks) []"

text \<open>
  \<open>max(d, key=d.get)\<close>: the first key, in iteration order, whose count no later key
  exceeds; \<open>ValueError\<close> on an empty dictionary.
\<close>

fun max_by_count :: "(int \<times> nat) list \<Rightarrow> error + int" where
  "max_by_count [] = Inl ValueError"
| "max_by_count ((k, c) # d) =
     Inr (fst (fold (\<lambda>(k', c') (bk, bc). if bc < c' then (k', c') else (bk, bc)) d (k, c)))"

text \<open>Lines 142 to 150 of \<open>synchronize\<close>.\<close>

definition delay_estimator ::
    "(int \<times> int list) list \<Rightarrow> (int \<times> int list) list \<Rightarrow> error + int" where
  "delay_estimator base_peaks other_peaks =
     max_by_count (delay_histogram base_peaks other_peaks)"

definition synchronize ::
    "real list \<Rightarrow> real list \<Rightarrow> int \<Rightarrow> int \<Rightarrow> int \<Rightarrow> int \<Rightarrow> int \<Rightarrow> error + int" where
  "synchronize base_signal other_signal window_size overlap spectral_band temporal_band
       peaks_per_bin =
     (case to_peaks base_signal window_size overlap spectral_band temporal_band peaks_per_bin of
        Inl e \<Rightarrow> Inl e
      | Inr base_peaks \<Rightarrow>
          (case to_peaks other_signal window_size overlap spectral_band temporal_band
                  peaks_per_bin of
             Inl e \<Rightarrow> Inl e
           | Inr other_peaks \<Rightarrow> delay_estimator base_peaks other_peaks))"

section \<open>The delay histogram in the words of the specification\<close>

text \<open>\<open>count_of d k\<close> is \<open>d.get(k, 0)\<close>.\<close>

definition count_of :: "(int \<times> nat) list \<Rightarrow> int \<Rightarrow> nat" where
  "count_of d k = (case map_of d k of None \<Rightarrow> 0 | Some c \<Rightarrow> c)"

text \<open>
  The number of votes for an offset \<open>d\<close>: over every frequency index present in both peak
  maps, the pairs of the full cross product of the two frame lists with
  \<open>other_frame - base_frame = d\<close>.
\<close>

definition offset_votes :: "(int \<times> int list) list \<Rightarrow> (int \<times> int list) list \<Rightarrow> int \<Rightarrow> nat" where
  "offset_votes base other d =
     (\<Sum>f \<in> set (map fst base) \<inter> set (map fst other).
        length (filter (\<lambda>(a, b). a - b = d) (List.product (lookup other f) (lookup base f))))"

section \<open>The peak selection in the words of the specification\<close>

text \<open>
  The entries of a peak map: the pairs \<open>(frame_index, frequency_index)\<close> it associates, key
  by key.
\<close>

definition peak_entries :: "(int \<times> int list) list \<Rightarrow> (int \<times> int) list" where
  "peak_entries peaks = concat (map (\<lambda>(f, ws). map (\<lambda>w. (w, f)) ws) peaks)"

text \<open>
  The cells \<open>(frame_index, frequency_index)\<close> of a magnitude matrix of \<open>num_windows\<close> rows, the
  magnitude of a cell, and the bin
  \<open>(frame_index // temporal_band, frequency_index // spectral_band)\<close> the specification
  assigns it to.
\<close>

definition matrix_cells :: "real list list \<Rightarrow> int \<Rightarrow> (int \<times> int) list" where
  "matrix_cells M num_windows =
     concat (map (\<lambda>w. map (\<lambda>f. (int w, int f)) [0..<length (M ! w)])
                 [0..<min (nat num_windows) (length M)])"

definition magnitude :: "real list list \<Rightarrow> int \<times> int \<Rightarrow> real" where
  "magnitude M c = M ! nat (fst c) ! nat (snd c)"

definition bin_index :: "int \<Rightarrow> int \<Rightarrow> int \<times> int \<Rightarrow> int \<times> int" where
  "bin_index temporal_band spectral_band c =
     (fst c div temporal_band, snd c div spectral_band)"

definition bin_cells :: "real list list \<Rightarrow> int \<Rightarrow> int \<Rightarrow> int \<Rightarrow> int \<times> int \<Rightarrow> (int \<times> int) list" where
  "bin_cells M num_windows temporal_band spectral_band b =
     filter (\<lambda>c. bin_index temporal_band spectral_band c = b) (matrix_cells M num_windows)"


section \<open>Properties of the spectral analyzer\<close>

lemma length_fft: "length (fft a) = length a"
  by (simp add: fft_def)

lemma round2_of_int: "round2 (of_int n) = of_int n"
  by (simp add: round2_def rint_def Let_def)

lemma cos_3pi2: "cos (pi * 3 / 2) = 0"
  using cos_3over2_pi by (simp add: mult.commute)

lemma sin_3pi2: "sin (pi * 3 / 2) = - 1"
  using sin_3over2_pi by (simp add: mult.commute)

text \<open>The spectrum of a frame of two samples and of a frame of four samples.\<close>

lemma fourier_magnitudes_2: "fourier_magnitudes [a, b] = Inr [round2 \<bar>a + b\<bar>]"
proof -
  have "take 1 (fft [a, b]) = [complex_of_real (a + b)]"
    by (simp add: fft_def upt_conv_Cons lessThan_Suc eval_nat_numeral)
  then have "map round2 (take 1 (map cmod (fft [a, b]))) = [round2 \<bar>a + b\<bar>]"
    unfolding take_map by (simp del: of_real_add)
  moreover have "length [a, b] div 2 = 1" by simp
  ultimately show ?thesis
    unfolding fourier_magnitudes_def Let_def length_fft by (simp only: list.simps if_False)
qed

lemma fourier_magnitudes_4:
  "fourier_magnitudes [a, b, c, d] =
     Inr [round2 \<bar>a + b + c + d\<bar>, round2 (cmod (Complex (a - c) (d - b)))]"
proof -
  have t: "take 2 (fft [a, b, c, d]) = [complex_of_real (a + b + c + d), Complex (a - c) (d - b)]"
    apply (simp add: fft_def upt_conv_Cons lessThan_Suc eval_nat_numeral)
    apply (simp add: complex_eq_iff cos_3pi2 sin_3pi2)
    done
  have "map round2 (take 2 (map cmod (fft [a, b, c, d]))) =
          [round2 \<bar>a + b + c + d\<bar>, round2 (cmod (Complex (a - c) (d - b)))]"
    unfolding take_map t by (simp del: of_real_add)
  moreover have "length [a, b, c, d] div 2 = 2" by simp
  ultimately show ?thesis
    unfolding fourier_magnitudes_def Let_def length_fft by (simp only: list.simps if_False)
qed

lemma fourier_magnitudes_ones: "fourier_magnitudes [1, 1, 1, 1] = Inr [4, 0]"
  using round2_of_int [of 4] round2_of_int [of 0] by (simp add: fourier_magnitudes_4 cmod_eq_Re)

lemma fourier_magnitudes_alt: "fourier_magnitudes [1, 0, - 1, 0] = Inr [0, 2]"
  using round2_of_int [of 2] round2_of_int [of 0] by (simp add: fourier_magnitudes_4 cmod_eq_Re)

lemma fourier_magnitudes_pair: "fourier_magnitudes [1, 1] = Inr [2]"
  using round2_of_int [of 2] by (simp add: fourier_magnitudes_2)

text \<open>
  Claim C7, as the specification states it, fails: \<open>fourier_magnitudes\<close> takes the frame only
  and compares its length with nothing.  A frame of two samples is analysed whatever
  \<open>window_size\<close> is, here \<open>4\<close>.
\<close>

theorem C7_fourier_magnitudes_counterexample:
  "int (length [1, 1 :: real]) \<noteq> 4 \<and> fourier_magnitudes [1, 1] = Inr [2]"
  by (simp add: fourier_magnitudes_pair)

text \<open>
  Claim C7, amended.  The spectral analyzer checks no frame length: every frame of
  \<open>n \<ge> 1\<close> samples yields \<open>n div 2\<close> magnitudes, and the only failure is the \<open>ValueError\<close>
  of the transform on an empty frame.
\<close>

theorem C7_fourier_magnitudes_failure:
  "(frame \<noteq> [] \<longrightarrow> (\<exists>mag. fourier_magnitudes frame = Inr mag \<and> length mag = length frame div 2)) \<and>
   (frame = [] \<longrightarrow> fourier_magnitudes frame = Inl ValueError)"
  by (simp add: fourier_magnitudes_def Let_def length_fft)

theorem C7_fourier_magnitudes_failure_witness:
  "fourier_magnitudes [] = Inl ValueError \<and>
   (\<exists>mag. fourier_magnitudes [1, 1, 1] = Inr mag \<and> length mag = 1)"
  using C7_fourier_magnitudes_failure [of "[]"] C7_fourier_magnitudes_failure [of "[1, 1, 1]"]
  by simp

section \<open>Properties of the framer\<close>

lemma as_strided_ok:
  assumes "0 \<le> rows" "0 \<le> cols"
    and "\<And>i j. i < nat rows \<Longrightarrow> j < nat cols \<Longrightarrow> 0 \<le> int i * step + int j \<and> int i * step + int j < int (length arr)"
  shows "as_strided arr rows cols step =
           Inr (map (\<lambda>i. map (\<lambda>j. arr ! nat (int i * step + int j)) [0..<nat cols]) [0..<nat rows])"
  using assms by (simp add: as_strided_def Let_def list_all_iff comp_def)

lemma div_mult_le_int: "0 < (b::int) \<Longrightarrow> a div b * b \<le> a"
  by (metis div_mult_mod_eq le_add_same_cancel1 pos_mod_sign)

text \<open>
  Claim C3.  For a signal of \<open>L \<ge> window_size\<close> samples and \<open>window_size > overlap \<ge> 0\<close> the
  framer returns \<open>num_windows = (L - window_size) div step_size + 1\<close> frames of
  \<open>window_size\<close> samples; frame \<open>i\<close> is read from sample \<open>i * step_size\<close> of the signal padded
  with \<open>max 0 ((num_windows - 1) * step_size + window_size - L)\<close> zeros, so a position
  beyond \<open>L\<close> reads as zero.
\<close>

theorem C3_rolling_window_frames:
  fixes signal :: "real list" and window_size overlap :: int
  assumes "window_size \<le> int (length signal)" and "overlap < window_size" and "0 \<le> overlap"
  defines "step_size \<equiv> window_size - overlap"
  defines "num_windows \<equiv> (int (length signal) - window_size) div step_size + 1"
  defines "padding \<equiv> max 0 ((num_windows - 1) * step_size + window_size - int (length signal))"
  shows "\<exists>frames. rolling_window signal window_size overlap True = Inr (frames, num_windows) \<and>
           int (length frames) = num_windows \<and>
           (\<forall>i<length frames.
              length (frames ! i) = nat window_size \<and>
              frames ! i = take (nat window_size) (drop (i * nat step_size) (signal @ replicate (nat padding) 0)) \<and>
              (\<forall>j<nat window_size.
                 frames ! i ! j = (if i * nat step_size + j < length signal
                                   then signal ! (i * nat step_size + j) else 0)))"
proof -
  let ?L = "int (length signal)"
  have step: "0 < step_size" using assms by (simp add: step_size_def)
  have w: "0 < window_size" using assms by simp
  have q: "0 \<le> (?L - window_size) div step_size"
    using assms step by (simp add: pos_imp_zdiv_nonneg_iff)
  have n: "0 < num_windows" using q by (simp add: num_windows_def)
  have last: "(num_windows - 1) * step_size + window_size \<le> ?L"
    using div_mult_le_int [OF step, of "?L - window_size"] by (simp add: num_windows_def)
  have pad0: "padding = 0" using last by (simp add: padding_def)
  have bound: "int i * step_size + int j < ?L \<and> 0 \<le> int i * step_size + int j"
    if "i < nat num_windows" "j < nat window_size" for i j
  proof -
    have "int i \<le> num_windows - 1" using that by simp
    then have "int i * step_size \<le> (num_windows - 1) * step_size"
      using step by (simp add: mult_right_mono)
    moreover have "int j < window_size" using that by simp
    moreover have "0 \<le> int i * step_size" using step by simp
    ultimately show ?thesis using last by linarith
  qed
  let ?frames = "map (\<lambda>i. map (\<lambda>j. signal ! nat (int i * step_size + int j)) [0..<nat window_size])
                     [0..<nat num_windows]"
  have strided: "as_strided signal num_windows window_size step_size = Inr ?frames"
    using n w bound by (intro as_strided_ok) auto
  have rw: "rolling_window signal window_size overlap True = Inr (?frames, num_windows)"
    using step pad0 strided
    unfolding rolling_window_def Let_def padding_def num_windows_def step_size_def by simp
  have idx: "nat (int i * step_size + int j) = i * nat step_size + j" for i j
    using step by (simp add: nat_add_distrib nat_mult_distrib)
  have fits: "i * nat step_size + nat window_size \<le> length signal" if "i < nat num_windows" for i
  proof -
    have "int i \<le> num_windows - 1" using that by simp
    then have "int i * step_size \<le> (num_windows - 1) * step_size"
      using step by (simp add: mult_right_mono)
    then have "int i * step_size + window_size \<le> ?L" using last by linarith
    then have "nat (int i * step_size + window_size) \<le> length signal" by linarith
    then show ?thesis using step w by (simp add: nat_add_distrib nat_mult_distrib)
  qed
  have fr: "?frames ! i = take (nat window_size) (drop (i * nat step_size) signal)"
    if "i < nat num_windows" for i
  proof (rule nth_equalityI)
    show "length (?frames ! i) = length (take (nat window_size) (drop (i * nat step_size) signal))"
      using that fits [OF that] by simp
  next
    fix j assume "j < length (?frames ! i)"
    then have "j < nat window_size" using that by simp
    moreover have "i * nat step_size \<le> length signal" using fits [OF that] by simp
    ultimately show "?frames ! i ! j = take (nat window_size) (drop (i * nat step_size) signal) ! j"
      using that by (simp add: idx)
  qed
  have el: "?frames ! i ! j = (if i * nat step_size + j < length signal
                                   then signal ! (i * nat step_size + j) else 0)"
    if "i < nat num_windows" "j < nat window_size" for i j
  proof -
    have "i * nat step_size + j < length signal" using fits [OF that(1)] that(2) by linarith
    then show ?thesis using that by (simp add: idx)
  qed
  define frames where "frames = ?frames"
  have 1: "rolling_window signal window_size overlap True = Inr (frames, num_windows)"
    using rw by (simp add: frames_def)
  have 2: "int (length frames) = num_windows" using n by (simp add: frames_def)
  have 3: "length (frames ! i) = nat window_size" if "i < length frames" for i
    using that by (simp add: frames_def)
  have 4: "frames ! i = take (nat window_size) (drop (i * nat step_size) (signal @ replicate (nat padding) 0))"
    if "i < length frames" for i
    using that fr [of i] by (simp add: frames_def pad0)
  have 5: "frames ! i ! j = (if i * nat step_size + j < length signal
                                   then signal ! (i * nat step_size + j) else 0)"
    if "i < length frames" "j < nat window_size" for i j
    using that el [of i j] by (simp add: frames_def)
  from 1 2 3 4 5 show ?thesis by blast
qed

theorem C3_rolling_window_frames_witness:
  "(2 :: int) \<le> int (length [1, 2, 3, 4, 5 :: real]) \<and> (1 :: int) < 2 \<and> (0 :: int) \<le> 1 \<and>
   (\<exists>frames. rolling_window [1, 2, 3, 4, 5] 2 1 True = Inr (frames, 4) \<and>
      int (length frames) = 4 \<and>
      (\<forall>i<length frames. length (frames ! i) = 2 \<and>
         frames ! i = take 2 (drop i [1, 2, 3, 4, 5])))"
  using C3_rolling_window_frames [of 2 "[1, 2, 3, 4, 5]" 1] by simp blast

text \<open>
  Claim C8, as the specification states it, fails: the framer validates nothing.  With
  \<open>window_size = 2\<close> and \<open>overlap = 3\<close> the step is \<open>- 1\<close>, and a signal of two samples is
  returned as one frame.
\<close>

theorem C8_rolling_window_counterexample:
  "(2 :: int) - 3 \<le> 0 \<and> rolling_window [1, 2] 2 3 True = Inr ([[1, 2]], 1)"
  by code_simp

text \<open>
  Claim C8, amended.  The framer fails with \<open>ZeroDivisionError\<close> when \<open>step_size = 0\<close>, and
  with \<open>ValueError\<close> when \<open>step_size \<noteq> 0\<close> and \<open>window_size < 0\<close>; it never reports an
  \<open>InvalidWindowConfiguration\<close> condition.
\<close>

theorem C8_rolling_window_failure:
  "(window_size - overlap = 0 \<longrightarrow>
      rolling_window arr window_size overlap pad = Inl ZeroDivisionError) \<and>
   (window_size - overlap \<noteq> 0 \<and> window_size < 0 \<longrightarrow>
      rolling_window arr window_size overlap pad = Inl ValueError) \<and>
   rolling_window arr window_size overlap pad \<noteq> Inl InvalidWindowConfiguration"
  by (auto simp: rolling_window_def as_strided_def Let_def split: sum.splits)

theorem C8_rolling_window_failure_witness:
  "rolling_window [1, 2, 3] 2 2 True = Inl ZeroDivisionError \<and>
   rolling_window [1, 2, 3] (- 1) 0 True = Inl ValueError"
  using C8_rolling_window_failure [of 2 2 "[1, 2, 3]" True]
        C8_rolling_window_failure [of "- 1" 0 "[1, 2, 3]" True]
  by simp

section \<open>Properties of the dictionaries\<close>

subsection \<open>\<open>setdefault_append\<close>\<close>

lemma key_in_keys: "(k, v) \<in> set d \<Longrightarrow> k \<in> fst ` set d"
  by (force simp: image_iff)

lemma keys_setdefault_append:
  "map fst (setdefault_append k v d) = (if k \<in> fst ` set d then map fst d else map fst d @ [k])"
  by (induction d) (auto dest: key_in_keys)

lemma keys_set_setdefault_append: "fst ` set (setdefault_append k v d) = insert k (fst ` set d)"
  using arg_cong [OF keys_setdefault_append [of k v d], of set] by auto

lemma distinct_setdefault_append:
  "distinct (map fst d) \<Longrightarrow> distinct (map fst (setdefault_append k v d))"
  by (simp add: keys_setdefault_append)

lemma lookup_setdefault_append:
  "lookup (setdefault_append k v d) k' = (if k' = k then lookup d k @ [v] else lookup d k')"
  by (induction d) (auto simp: lookup_def)

lemma keys_group:
  "fst ` set (fold (\<lambda>x. setdefault_append (key x) (val x)) xs d) = fst ` set d \<union> key ` set xs"
  by (induction xs arbitrary: d) (simp_all add: keys_set_setdefault_append)

lemma distinct_group:
  "distinct (map fst d) \<Longrightarrow> distinct (map fst (fold (\<lambda>x. setdefault_append (key x) (val x)) xs d))"
  by (induction xs arbitrary: d) (simp_all add: distinct_setdefault_append)

lemma lookup_group:
  "lookup (fold (\<lambda>x. setdefault_append (key x) (val x)) xs d) k =
     lookup d k @ map val (filter (\<lambda>x. key x = k) xs)"
  by (induction xs arbitrary: d) (simp_all add: lookup_setdefault_append)

lemma lookup_member: "distinct (map fst d) \<Longrightarrow> (k, vs) \<in> set d \<Longrightarrow> lookup d k = vs"
  by (simp add: lookup_def)

lemma lookup_not_key: "k \<notin> fst ` set d \<Longrightarrow> lookup d k = []"
  by (simp add: lookup_def map_of_eq_None_iff [THEN iffD2])

lemma lookup_key_member: "k \<in> fst ` set d \<Longrightarrow> (k, lookup d k) \<in> set d"
proof -
  assume "k \<in> fst ` set d"
  then obtain vs where "map_of d k = Some vs"
    by (cases "map_of d k") (auto simp: map_of_eq_None_iff)
  then show ?thesis by (auto simp: lookup_def dest: map_of_SomeD)
qed

subsection \<open>\<open>dict_incr\<close> and the histogram\<close>

lemma keys_list_dict_incr:
  "map fst (dict_incr k d) = (if k \<in> fst ` set d then map fst d else map fst d @ [k])"
  by (induction d) (auto dest: key_in_keys)

lemma keys_dict_incr: "fst ` set (dict_incr k d) = insert k (fst ` set d)"
  using arg_cong [OF keys_list_dict_incr [of k d], of set] by auto

lemma count_of_dict_incr: "count_of (dict_incr k d) k' = count_of d k' + (if k' = k then 1 else 0)"
  by (induction d) (auto simp: count_of_def)

lemma distinct_dict_incr: "distinct (map fst d) \<Longrightarrow> distinct (map fst (dict_incr k d))"
  by (simp add: keys_list_dict_incr)

lemma histogram_fold:
  "count_of (fold (\<lambda>(a, b). dict_incr (a - b)) pairs d) k =
     count_of d k + length (filter (\<lambda>(a, b). a - b = k) pairs)"
  by (induction pairs arbitrary: d) (auto simp: count_of_dict_incr)

lemma histogram_fold_keys:
  "fst ` set (fold (\<lambda>(a, b). dict_incr (a - b)) pairs d) =
     fst ` set d \<union> (\<lambda>(a, b). a - b) ` set pairs"
proof (induction pairs arbitrary: d)
  case Nil
  then show ?case by simp
next
  case (Cons p pairs)
  obtain a b where p: "p = (a, b)" by (cases p)
  show ?case unfolding p by (simp add: Cons.IH keys_dict_incr)
qed

lemma histogram_fold_distinct:
  "distinct (map fst d) \<Longrightarrow> distinct (map fst (fold (\<lambda>(a, b). dict_incr (a - b)) pairs d))"
  by (induction pairs arbitrary: d) (auto simp: distinct_dict_incr)

subsection \<open>\<open>max_by_count\<close>\<close>

lemma fold_max_step:
  fixes c bc :: nat and k bk :: int
  shows "fold (\<lambda>(k', c') (bk, bc). if bc < c' then (k', c') else (bk, bc)) d (k, c) = (bk, bc) \<Longrightarrow>
     (bk, bc) \<in> insert (k, c) (set d) \<and> c \<le> bc \<and> (\<forall>(k', c') \<in> set d. c' \<le> bc)"
proof (induction d arbitrary: k c)
  case Nil
  then show ?case by simp
next
  case (Cons x d)
  obtain k' c' where x: "x = (k', c')" by (cases x)
  show ?case
  proof (cases "c < c'")
    case True
    with Cons.prems x have "fold (\<lambda>(k', c') (bk, bc). if bc < c' then (k', c') else (bk, bc)) d (k', c') = (bk, bc)"
      by simp
    from Cons.IH [OF this] True x show ?thesis by auto
  next
    case False
    with Cons.prems x have "fold (\<lambda>(k', c') (bk, bc). if bc < c' then (k', c') else (bk, bc)) d (k, c) = (bk, bc)"
      by simp
    from Cons.IH [OF this] False x show ?thesis by auto
  qed
qed

lemma max_by_count_empty: "max_by_count d = Inl e \<longleftrightarrow> d = [] \<and> e = ValueError"
  by (cases d) auto

lemma max_by_count_Inr:
  assumes "max_by_count d = Inr k" and "distinct (map fst d)"
  shows "k \<in> fst ` set d \<and> (\<forall>k'. count_of d k' \<le> count_of d k)"
proof -
  from assms(1) obtain k0 c0 d' where d: "d = (k0, c0) # d'" by (cases d) auto
  obtain bk bc where f: "fold (\<lambda>(k', c') (bk, bc). if bc < c' then (k', c') else (bk, bc)) d' (k0, c0) = (bk, bc)"
    by (cases "fold (\<lambda>(k', c') (bk, bc). if bc < c' then (k', c') else (bk, bc)) d' (k0, c0)")
  with assms(1) d have k: "k = bk" by simp
  from fold_max_step [OF f] d have mem: "(bk, bc) \<in> set d" and mx: "\<forall>(k', c') \<in> set d. c' \<le> bc"
    by auto
  from mem assms(2) have cnt: "count_of d bk = bc" by (simp add: count_of_def)
  have "count_of d k' \<le> bc" for k'
  proof (cases "map_of d k'")
    case None
    then show ?thesis by (simp add: count_of_def)
  next
    case (Some c)
    then have "(k', c) \<in> set d" by (rule map_of_SomeD)
    with mx Some show ?thesis by (auto simp: count_of_def)
  qed
  with mem cnt k show ?thesis by force
qed

section \<open>Properties of the delay estimator\<close>

lemma length_filter_concat:
  "length (filter P (concat xss)) = sum_list (map (\<lambda>xs. length (filter P xs)) xss)"
  by (induction xss) simp_all

lemma delay_pairs_votes:
  assumes "distinct (map fst other_peaks)"
  shows "length (filter (\<lambda>(a, b). a - b = d) (delay_pairs base_peaks other_peaks)) =
           offset_votes base_peaks other_peaks d"
proof -
  let ?P = "\<lambda>(a :: int, b). a - b = d"
  let ?h = "\<lambda>f. if f \<in> fst ` set base_peaks
                 then length (filter ?P (List.product (lookup other_peaks f) (lookup base_peaks f)))
                 else 0"
  let ?g = "\<lambda>(key, other_frames). case map_of base_peaks key of
              None \<Rightarrow> [] | Some base_frames \<Rightarrow> List.product other_frames base_frames"
  have each: "length (filter ?P (?g x)) = ?h (fst x)" if "x \<in> set other_peaks" for x
  proof -
    obtain f fr where x: "x = (f, fr)" by (cases x)
    with that assms have lo: "lookup other_peaks f = fr" by (simp add: lookup_member)
    show ?thesis
    proof (cases "map_of base_peaks f")
      case None
      then have "f \<notin> fst ` set base_peaks" by (simp add: map_of_eq_None_iff)
      with None x show ?thesis by simp
    next
      case (Some bf)
      then have "f \<in> fst ` set base_peaks" by (metis map_of_eq_None_iff option.distinct(1))
      with Some x lo show ?thesis by (simp add: lookup_def)
    qed
  qed
  have "length (filter ?P (delay_pairs base_peaks other_peaks)) =
          sum_list (map (\<lambda>x. length (filter ?P (?g x))) other_peaks)"
    by (simp add: delay_pairs_def length_filter_concat comp_def)
  also have "\<dots> = sum_list (map (\<lambda>x. ?h (fst x)) other_peaks)"
    using each by (intro arg_cong [where f = sum_list] map_cong) auto
  also have "\<dots> = sum_list (map ?h (map fst other_peaks))"
    by (simp add: comp_def)
  also have "\<dots> = sum ?h (set (map fst other_peaks))"
    using assms by (rule sum_list_distinct_conv_sum_set)
  also have "\<dots> = offset_votes base_peaks other_peaks d"
    unfolding offset_votes_def
    by (subst Int_commute) (simp add: sum.inter_restrict)
  finally show ?thesis .
qed

lemma count_of_Nil: "count_of [] k = 0"
  by (simp add: count_of_def)

lemma delay_histogram_count:
  "distinct (map fst other_peaks) \<Longrightarrow>
     count_of (delay_histogram base_peaks other_peaks) d = offset_votes base_peaks other_peaks d"
  by (simp add: delay_histogram_def histogram_fold delay_pairs_votes count_of_Nil)

lemma delay_histogram_distinct: "distinct (map fst (delay_histogram base_peaks other_peaks))"
  by (simp add: delay_histogram_def histogram_fold_distinct)

lemma delay_histogram_keys:
  assumes "distinct (map fst other_peaks)"
  shows "d \<in> fst ` set (delay_histogram base_peaks other_peaks) \<longleftrightarrow>
           0 < offset_votes base_peaks other_peaks d"
proof -
  have "d \<in> fst ` set (delay_histogram base_peaks other_peaks) \<longleftrightarrow>
          d \<in> (\<lambda>(a, b). a - b) ` set (delay_pairs base_peaks other_peaks)"
    by (simp add: delay_histogram_def histogram_fold_keys)
  also have "\<dots> \<longleftrightarrow> filter (\<lambda>(a, b). a - b = d) (delay_pairs base_peaks other_peaks) \<noteq> []"
    by (auto simp: filter_empty_conv)
  also have "\<dots> \<longleftrightarrow> 0 < offset_votes base_peaks other_peaks d"
    using delay_pairs_votes [OF assms, of d base_peaks] by (metis length_greater_0_conv)
  finally show ?thesis .
qed

text \<open>
  Claim C1.  For peak maps \<open>base\<close> and \<open>other\<close> (dictionaries, so with distinct keys) the
  histogram built by \<open>synchronize\<close> counts, for every offset \<open>d\<close>, the pairs of the cross
  products over the frequency indices present in both maps with
  \<open>other_frame - base_frame = d\<close>; an offset is a key exactly when it has a vote; the
  offset returned has a count that no other count exceeds; an offset is returned whenever
  there is a vote; and \<open>synchronize\<close> returns what the estimator returns on the two peak
  maps.
\<close>

theorem C1_delay_estimator_mode:
  assumes "distinct (map fst base_peaks)" and "distinct (map fst other_peaks)"
  shows "(\<forall>d. count_of (delay_histogram base_peaks other_peaks) d =
               offset_votes base_peaks other_peaks d) \<and>
         (\<forall>d. d \<in> fst ` set (delay_histogram base_peaks other_peaks) \<longleftrightarrow>
               0 < offset_votes base_peaks other_peaks d) \<and>
         (\<forall>d. delay_estimator base_peaks other_peaks = Inr d \<longrightarrow>
               0 < offset_votes base_peaks other_peaks d \<and>
               (\<forall>d'. offset_votes base_peaks other_peaks d' \<le> offset_votes base_peaks other_peaks d)) \<and>
         ((\<exists>d. 0 < offset_votes base_peaks other_peaks d) \<longrightarrow>
            (\<exists>d. delay_estimator base_peaks other_peaks = Inr d)) \<and>
         (to_peaks base_signal window_size overlap spectral_band temporal_band peaks_per_bin
            = Inr base_peaks \<and>
          to_peaks other_signal window_size overlap spectral_band temporal_band peaks_per_bin
            = Inr other_peaks \<longrightarrow>
          synchronize base_signal other_signal window_size overlap spectral_band temporal_band
            peaks_per_bin = delay_estimator base_peaks other_peaks)"
proof (intro conjI allI impI)
  fix d
  show "count_of (delay_histogram base_peaks other_peaks) d = offset_votes base_peaks other_peaks d"
    using assms(2) by (rule delay_histogram_count)
  show "d \<in> fst ` set (delay_histogram base_peaks other_peaks) \<longleftrightarrow>
          0 < offset_votes base_peaks other_peaks d"
    using assms(2) by (rule delay_histogram_keys)
next
  fix d assume r: "delay_estimator base_peaks other_peaks = Inr d"
  from r have m: "max_by_count (delay_histogram base_peaks other_peaks) = Inr d"
    by (simp add: delay_estimator_def)
  note mx = max_by_count_Inr [OF m delay_histogram_distinct]
  from mx show "0 < offset_votes base_peaks other_peaks d"
    by (simp add: delay_histogram_keys [OF assms(2)])
  fix d'
  from mx show "offset_votes base_peaks other_peaks d' \<le> offset_votes base_peaks other_peaks d"
    by (simp add: delay_histogram_count [OF assms(2)])
next
  assume "\<exists>d. 0 < offset_votes base_peaks other_peaks d"
  then obtain d where "d \<in> fst ` set (delay_histogram base_peaks other_peaks)"
    using delay_histogram_keys [OF assms(2)] by blast
  then have "delay_histogram base_peaks other_peaks \<noteq> []" by auto
  then show "\<exists>d. delay_estimator base_peaks other_peaks = Inr d"
    unfolding delay_estimator_def
    by (cases "delay_histogram base_peaks other_peaks") auto
next
  assume "to_peaks base_signal window_size overlap spectral_band temporal_band peaks_per_bin
            = Inr base_peaks \<and>
          to_peaks other_signal window_size overlap spectral_band temporal_band peaks_per_bin
            = Inr other_peaks"
  then show "synchronize base_signal other_signal window_size overlap spectral_band temporal_band
            peaks_per_bin = delay_estimator base_peaks other_peaks"
    by (simp add: synchronize_def)
qed

theorem C1_delay_estimator_mode_witness:
  "distinct (map fst [(0 :: int, [0, 1 :: int]), (1, [0])]) \<and>
   distinct (map fst [(1 :: int, [1 :: int]), (0, [1, 2])]) \<and>
   delay_estimator [(0, [0, 1]), (1, [0])] [(1, [1]), (0, [1, 2])] = Inr 1 \<and>
   offset_votes [(0, [0, 1]), (1, [0])] [(1, [1]), (0, [1, 2])] 1 = 3 \<and>
   (\<forall>d'. offset_votes [(0, [0, 1]), (1, [0])] [(1, [1]), (0, [1, 2])] d' \<le> 3)"
proof -
  have e: "delay_estimator [(0, [0, 1]), (1, [0])] [(1, [1]), (0, [1, 2])] = Inr 1"
    by code_simp
  have v: "offset_votes [(0, [0, 1]), (1, [0])] [(1, [1]), (0, [1, 2])] 1 = 3"
    by code_simp
  have d: "distinct (map fst [(0 :: int, [0, 1 :: int]), (1, [0])])"
          "distinct (map fst [(1 :: int, [1 :: int]), (0, [1, 2])])"
    by simp_all
  from C1_delay_estimator_mode [OF d] e v show ?thesis by (metis d)
qed

section \<open>Properties of the peak selector\<close>

subsection \<open>Bounded selection\<close>

lemma nlargest_nonpos: "n \<le> 0 \<Longrightarrow> nlargest n xs = []"
  by (simp add: nlargest_def)

lemma nlargest_Nil: "nlargest n [] = []"
  by (simp add: nlargest_def)

lemma length_nlargest: "length (nlargest n xs) = min (nat n) (length xs)"
  by (simp add: nlargest_def min.commute)

lemma mset_nlargest_rest:
  "mset (nlargest n xs) + mset (drop (nat n) (sort_key (\<lambda>tup. - fst tup) xs)) = mset xs"
proof -
  have "mset (take (nat n) (sort_key (\<lambda>tup. - fst tup) xs)) +
        mset (drop (nat n) (sort_key (\<lambda>tup. - fst tup) xs)) =
        mset (sort_key (\<lambda>tup. - fst tup) xs)"
    by (metis append_take_drop_id mset_append)
  then show ?thesis by (simp add: nlargest_def)
qed

lemma mset_nlargest_subset: "mset (nlargest n xs) \<subseteq># mset xs"
  by (metis mset_nlargest_rest mset_subset_eq_add_left)

lemma set_nlargest_subset: "set (nlargest n xs) \<subseteq> set xs"
  by (metis mset_nlargest_subset set_mset_mono set_mset_mset)

lemma sorted_desc_nth:
  assumes "sorted (map (\<lambda>tup. - fst tup) ys)" and "i \<le> j" and "j < length ys"
  shows "fst (ys ! j) \<le> (fst (ys ! i) :: real)"
proof -
  have "map (\<lambda>tup. - fst tup) ys ! i \<le> map (\<lambda>tup. - fst tup) ys ! j"
    using assms by (intro sorted_nth_mono) simp_all
  then show ?thesis using assms by simp
qed

lemma nlargest_ge:
  assumes "x \<in> set (nlargest n xs)" and "y \<in># mset xs - mset (nlargest n xs)"
  shows "fst y \<le> fst x"
proof -
  let ?ys = "sort_key (\<lambda>tup. - fst tup) xs"
  have s: "sorted (map (\<lambda>tup. - fst tup) ?ys)" by (rule sorted_sort_key)
  from assms(1) obtain i where i: "i < nat n" "i < length ?ys" "x = ?ys ! i"
    by (auto simp: nlargest_def in_set_conv_nth)
  have "mset xs - mset (nlargest n xs) = mset (drop (nat n) ?ys)"
    by (metis mset_nlargest_rest add_diff_cancel_left')
  with assms(2) have "y \<in> set (drop (nat n) ?ys)" by simp
  then obtain j where j: "j < length (drop (nat n) ?ys)" "y = drop (nat n) ?ys ! j"
    by (auto simp: in_set_conv_nth)
  then have y: "y = ?ys ! (nat n + j)" and lt: "nat n + j < length ?ys" by auto
  from sorted_desc_nth [OF s _ lt, of i] i y show ?thesis by simp
qed




subsection \<open>Peak records\<close>

lemma in_zip_upt:
  "(i, x) \<in> set (zip (map int [0..<m]) xs) \<longleftrightarrow> 0 \<le> i \<and> nat i < m \<and> nat i < length xs \<and> x = xs ! nat i"
proof
  assume "(i, x) \<in> set (zip (map int [0..<m]) xs)"
  then show "0 \<le> i \<and> nat i < m \<and> nat i < length xs \<and> x = xs ! nat i"
    by (auto simp: in_set_zip)
next
  assume a: "0 \<le> i \<and> nat i < m \<and> nat i < length xs \<and> x = xs ! nat i"
  then have "zip (map int [0..<m]) xs ! nat i = (i, x)" by simp
  moreover from a have "nat i < length (zip (map int [0..<m]) xs)" by simp
  ultimately show "(i, x) \<in> set (zip (map int [0..<m]) xs)" by (metis nth_mem)
qed

lemma set_enumerate_py: "(f, v) \<in> set (enumerate_py xs) \<longleftrightarrow> 0 \<le> f \<and> nat f < length xs \<and> v = xs ! nat f"
  by (auto simp: enumerate_py_def in_zip_upt)

lemma set_cells:
  "(v, w, f) \<in> set (cells M n) \<longleftrightarrow>
     0 \<le> w \<and> w < n \<and> nat w < length M \<and> 0 \<le> f \<and> nat f < length (M ! nat w) \<and>
     v = M ! nat w ! nat f"
proof -
  have z: "(w, vs) \<in> set (zip (arange n) M) \<longleftrightarrow> 0 \<le> w \<and> w < n \<and> nat w < length M \<and> vs = M ! nat w"
    for vs
    by (auto simp: arange_def in_zip_upt)
  have "(v, w, f) \<in> set (cells M n) \<longleftrightarrow>
          (\<exists>vs. (w, vs) \<in> set (zip (arange n) M) \<and> (f, v) \<in> set (enumerate_py vs))"
    unfolding cells_def by (force simp: image_iff)
  then show ?thesis
    by (auto simp: set_enumerate_py z)
qed

lemma distinct_indexed_concat:
  assumes "distinct ks" and "\<And>x. distinct (h x)"
  shows "distinct (concat (map (\<lambda>(k, x). map (\<lambda>j. (k, j)) (h x)) (zip ks xs)))"
  using assms(1)
proof (induction ks arbitrary: xs)
  case Nil
  then show ?case by simp
next
  case (Cons k ks)
  show ?case
  proof (cases xs)
    case Nil
    then show ?thesis by simp
  next
    case (Cons x xs')
    have d1: "distinct (map (\<lambda>j. (k, j)) (h x))"
      using assms(2) by (simp add: distinct_map inj_on_def)
    have d2: "distinct (concat (map (\<lambda>(k, x). map (\<lambda>j. (k, j)) (h x)) (zip ks xs')))"
      using Cons.IH Cons.prems by simp
    let ?rest = "concat (map (\<lambda>(k, x). map (\<lambda>j. (k, j)) (h x)) (zip ks xs'))"
    have sub: "fst ` set ?rest \<subseteq> set ks"
      by (auto dest: set_zip_leftD)
    have "p \<notin> set ?rest" if "p \<in> set (map (\<lambda>j. (k, j)) (h x))" for p
    proof
      assume "p \<in> set ?rest"
      then have "fst p \<in> set ks" using sub by blast
      moreover from that have "fst p = k" by auto
      ultimately show False using Cons.prems by simp
    qed
    then have d3: "set (map (\<lambda>j. (k, j)) (h x)) \<inter> set ?rest = {}"
      by blast
    from d1 d2 d3 Cons show ?thesis by simp
  qed
qed

lemma cells_index:
  "map (\<lambda>(v, w, f). (w, f)) (cells M n) =
     concat (map (\<lambda>(w, vals). map (\<lambda>f. (w, f)) (map int [0..<length vals]))
                 (zip (arange n) M))"
proof -
  have "map (\<lambda>(v, w, f). (w, f)) (map (\<lambda>(f, v). (v, w, f)) (enumerate_py vals)) =
          map (\<lambda>f. (w, f)) (map int [0..<length vals])" for w :: int and vals :: "real list"
  proof -
    have "map (\<lambda>(v, w, f). (w, f)) (map (\<lambda>(f, v). (v, w, f)) (enumerate_py vals)) =
            map (\<lambda>f. (w, f)) (map fst (enumerate_py vals))"
      by (simp add: case_prod_beta comp_def)
    also have "map fst (enumerate_py vals) = map int [0..<length vals]"
      by (simp add: enumerate_py_def)
    finally show ?thesis .
  qed
  then show ?thesis
    unfolding cells_def split_def by (simp add: map_concat comp_def)
qed

lemma distinct_cells_index: "distinct (map (\<lambda>(v, w, f). (w, f)) (cells M n))"
proof -
  have "distinct (arange n)" by (simp add: arange_def distinct_map inj_on_def)
  moreover have "distinct (map int [0..<length vals])" for vals :: "real list"
    by (simp add: distinct_map inj_on_def)
  ultimately show ?thesis
    unfolding cells_index
    by (rule distinct_indexed_concat [where h = "\<lambda>vals. map int [0..<length vals]"])
qed

lemma distinct_cells: "distinct (cells M n)"
  using distinct_cells_index [of M n] by (simp add: distinct_map)

subsection \<open>Bins\<close>

lemma lookup_Nil: "lookup [] k = []"
  by (simp add: lookup_def)

lemma spectro_bins_distinct: "distinct (map fst (spectro_bins M n sb tb))"
  unfolding spectro_bins_def
  using distinct_group [of "[]" "bin_of tb sb" "\<lambda>x. x" "cells M n"] by simp

lemma lookup_spectro_bins:
  "lookup (spectro_bins M n sb tb) b = filter (\<lambda>c. bin_of tb sb c = b) (cells M n)"
  unfolding spectro_bins_def
  using lookup_group [of "bin_of tb sb" "\<lambda>x. x" "cells M n" "[]" b] by (simp add: lookup_Nil)

lemma spectro_bins_member:
  "(b, cs) \<in> set (spectro_bins M n sb tb) \<Longrightarrow> cs = filter (\<lambda>c. bin_of tb sb c = b) (cells M n)"
  using lookup_member [OF spectro_bins_distinct] lookup_spectro_bins by metis

subsection \<open>Selection per bin\<close>

lemma filter_concat_groups:
  assumes "distinct (map fst al)"
    and "\<And>k vs x. (k, vs) \<in> set al \<Longrightarrow> x \<in> set (g vs) \<Longrightarrow> key x = k"
    and "g [] = []"
  shows "filter (\<lambda>x. key x = k0) (concat (map (\<lambda>(k, vs). g vs) al)) = g (lookup al k0)"
  using assms(1,2)
proof (induction al)
  case Nil
  then show ?case by (simp add: lookup_Nil assms(3))
next
  case (Cons p al)
  obtain k vs where p: "p = (k, vs)" by (cases p)
  have IH: "filter (\<lambda>x. key x = k0) (concat (map (\<lambda>(k, vs). g vs) al)) = g (lookup al k0)"
  proof (rule Cons.IH)
    show "distinct (map fst al)" using Cons.prems(1) by simp
    show "\<And>k vs x. (k, vs) \<in> set al \<Longrightarrow> x \<in> set (g vs) \<Longrightarrow> key x = k"
      using Cons.prems(2) by (meson list.set_intros(2))
  qed
  have here: "\<And>x. x \<in> set (g vs) \<Longrightarrow> key x = k"
    using Cons.prems(2) p by (meson list.set_intros(1))
  show ?case
  proof (cases "k = k0")
    case True
    then have "k0 \<notin> fst ` set al" using Cons.prems(1) p by auto
    then have "lookup al k0 = []" by (rule lookup_not_key)
    with IH have "filter (\<lambda>x. key x = k0) (concat (map (\<lambda>(k, vs). g vs) al)) = []"
      by (simp add: assms(3))
    moreover have "filter (\<lambda>x. key x = k0) (g vs) = g vs" using here True by (simp add: filter_id_conv)
    moreover have "lookup (p # al) k0 = vs" using True p by (simp add: lookup_def)
    ultimately show ?thesis using p by simp
  next
    case False
    then have "filter (\<lambda>x. key x = k0) (g vs) = []" using here by (auto simp: filter_empty_conv)
    moreover have "lookup (p # al) k0 = lookup al k0" using False p by (simp add: lookup_def)
    ultimately show ?thesis using p IH by simp
  qed
qed

lemma filter_max_intensities:
  "filter (\<lambda>c. bin_of tb sb c = b) (max_intensities (spectro_bins M n sb tb) ppb) =
     nlargest ppb (filter (\<lambda>c. bin_of tb sb c = b) (cells M n))"
proof -
  have "filter (\<lambda>c. bin_of tb sb c = b)
          (concat (map (\<lambda>(k, vs). nlargest ppb vs) (spectro_bins M n sb tb))) =
        nlargest ppb (lookup (spectro_bins M n sb tb) b)"
  proof (rule filter_concat_groups [OF spectro_bins_distinct])
    fix k vs x
    assume m: "(k, vs) \<in> set (spectro_bins M n sb tb)" and x: "x \<in> set (nlargest ppb vs)"
    from m have "vs = filter (\<lambda>c. bin_of tb sb c = k) (cells M n)" by (rule spectro_bins_member)
    with x set_nlargest_subset [of ppb vs] show "bin_of tb sb x = k" by auto
  qed (rule nlargest_Nil)
  then show ?thesis by (simp add: max_intensities_def lookup_spectro_bins)
qed

lemma distinct_nlargest: "distinct xs \<Longrightarrow> distinct (nlargest n xs)"
  by (simp add: nlargest_def)

lemma distinct_by_key:
  assumes "\<And>k. distinct (filter (\<lambda>x. key x = k) xs)"
  shows "distinct xs"
proof (rule ccontr)
  assume "\<not> distinct xs"
  then obtain as x bs cs where "xs = as @ [x] @ bs @ [x] @ cs"
    using not_distinct_decomp by blast
  then have "\<not> distinct (filter (\<lambda>y. key y = key x) xs)" by simp
  with assms show False by blast
qed

lemma distinct_max_intensities: "distinct (max_intensities (spectro_bins M n sb tb) ppb)"
proof (rule distinct_by_key [where key = "bin_of tb sb"])
  fix k
  show "distinct (filter (\<lambda>x. bin_of tb sb x = k) (max_intensities (spectro_bins M n sb tb) ppb))"
    unfolding filter_max_intensities
    by (intro distinct_nlargest distinct_filter distinct_cells)
qed

lemma set_max_intensities: "set (max_intensities (spectro_bins M n sb tb) ppb) \<subseteq> set (cells M n)"
proof
  fix x assume "x \<in> set (max_intensities (spectro_bins M n sb tb) ppb)"
  then have "x \<in> set (filter (\<lambda>c. bin_of tb sb c = bin_of tb sb x)
                        (max_intensities (spectro_bins M n sb tb) ppb))"
    by simp
  then have "x \<in> set (nlargest ppb (filter (\<lambda>c. bin_of tb sb c = bin_of tb sb x) (cells M n)))"
    by (simp only: filter_max_intensities)
  then show "x \<in> set (cells M n)"
    using set_nlargest_subset by fastforce
qed

lemma distinct_max_intensities_index:
  "distinct (map (\<lambda>(v, w, f). (w, f)) (max_intensities (spectro_bins M n sb tb) ppb))"
proof -
  have "inj_on (\<lambda>(v, w, f). (w, f)) (set (cells M n))"
    using distinct_cells_index [of M n] by (simp add: distinct_map)
  then have "inj_on (\<lambda>(v, w, f). (w, f)) (set (max_intensities (spectro_bins M n sb tb) ppb))"
    using set_max_intensities by (rule inj_on_subset)
  then show ?thesis
    using distinct_max_intensities by (simp add: distinct_map)
qed

subsection \<open>The peak map\<close>

lemma peak_fold_fun:
  "(\<lambda>(value :: real, window_index :: int, frequency_index :: int) peaks.
       setdefault_append frequency_index window_index peaks) =
   (\<lambda>x. setdefault_append (snd (snd x)) (fst (snd x)))"
  by (auto simp: fun_eq_iff)

lemma peak_selector_Inr:
  assumes "peak_selector M n sb tb ppb = Inr peaks"
  shows "peaks = fold (\<lambda>x. setdefault_append (snd (snd x)) (fst (snd x)))
                      (max_intensities (spectro_bins M n sb tb) ppb) []"
    and "sb \<noteq> 0 \<or> cells M n = []"
  using assms by (auto simp: peak_selector_def Let_def peak_fold_fun split: if_splits)

lemma peak_selector_total:
  "sb \<noteq> 0 \<or> cells M n = [] \<Longrightarrow> \<exists>peaks. peak_selector M n sb tb ppb = Inr peaks"
  by (auto simp: peak_selector_def Let_def)

lemma peak_selector_Inl:
  "peak_selector M n sb tb ppb = Inl e \<Longrightarrow> e = ZeroDivisionError \<and> sb = 0 \<and> cells M n \<noteq> []"
  by (auto simp: peak_selector_def Let_def split: if_splits)

lemma peak_map_distinct:
  assumes "peak_selector M n sb tb ppb = Inr peaks"
  shows "distinct (map fst peaks)"
  unfolding peak_selector_Inr(1) [OF assms]
  using distinct_group [of "[]" "\<lambda>x. snd (snd x)" "\<lambda>x. fst (snd x)"] by simp

lemma peak_map_lookup:
  assumes "peak_selector M n sb tb ppb = Inr peaks"
  shows "lookup peaks f = map (\<lambda>x. fst (snd x))
           (filter (\<lambda>x. snd (snd x) = f) (max_intensities (spectro_bins M n sb tb) ppb))"
  unfolding peak_selector_Inr(1) [OF assms]
  using lookup_group [of "\<lambda>x. snd (snd x)" "\<lambda>x. fst (snd x)" _ "[]" f]
  by (simp add: lookup_Nil)

lemma peak_map_keys:
  assumes "peak_selector M n sb tb ppb = Inr peaks"
  shows "fst ` set peaks =
           (\<lambda>x. snd (snd x)) ` set (max_intensities (spectro_bins M n sb tb) ppb)"
  unfolding peak_selector_Inr(1) [OF assms]
  using keys_group [of "\<lambda>x. snd (snd x)" "\<lambda>x. fst (snd x)" _ "[]"] by simp

lemma distinct_frames_of_frequency:
  assumes "distinct (map (\<lambda>(v, w, f). (w, f)) xs)"
  shows "distinct (map (\<lambda>x. fst (snd x)) (filter (\<lambda>x. snd (snd x) = f) xs))"
proof -
  from assms have d: "distinct xs" and i: "inj_on (\<lambda>(v, w, f). (w, f)) (set xs)"
    by (simp_all add: distinct_map)
  have "inj_on (\<lambda>x. fst (snd x)) (set (filter (\<lambda>x. snd (snd x) = f) xs))"
  proof (rule inj_onI)
    fix x y
    assume x: "x \<in> set (filter (\<lambda>x. snd (snd x) = f) xs)"
      and y: "y \<in> set (filter (\<lambda>x. snd (snd x) = f) xs)"
      and e: "fst (snd x) = fst (snd y)"
    then have "(\<lambda>(v, w, f). (w, f)) x = (\<lambda>(v, w, f). (w, f)) y"
      by (simp add: case_prod_beta prod_eq_iff)
    with i x y show "x = y" by (auto dest: inj_onD)
  qed
  with d show ?thesis by (simp add: distinct_map)
qed

lemma peak_map_frames_distinct:
  assumes "peak_selector M n sb tb ppb = Inr peaks" and "(f, ws) \<in> set peaks"
  shows "distinct ws" and "ws \<noteq> []"
proof -
  have l: "lookup peaks f = ws"
    using peak_map_distinct [OF assms(1)] assms(2) by (rule lookup_member)
  show "distinct ws"
    using distinct_frames_of_frequency [OF distinct_max_intensities_index, of f M n sb tb ppb]
    by (simp add: l [symmetric] peak_map_lookup [OF assms(1)])
  from assms(2) have "f \<in> fst ` set peaks" by (rule key_in_keys)
  then obtain x where "x \<in> set (max_intensities (spectro_bins M n sb tb) ppb)" "snd (snd x) = f"
    by (auto simp: peak_map_keys [OF assms(1)])
  then have "filter (\<lambda>x. snd (snd x) = f) (max_intensities (spectro_bins M n sb tb) ppb) \<noteq> []"
    by (auto simp: filter_empty_conv)
  then show "ws \<noteq> []"
    by (simp add: l [symmetric] peak_map_lookup [OF assms(1)])
qed

lemma to_peaks_Inr:
  assumes "to_peaks signal ws ov sb tb ppb = Inr peaks"
  obtains windows n M where "rolling_window signal ws ov True = Inr (windows, n)"
    and "apply_along_axis fourier_magnitudes windows = Inr M"
    and "peak_selector M n sb tb ppb = Inr peaks"
  using assms by (auto simp: to_peaks_def split: sum.splits prod.splits)

lemma to_peaks_distinct: "to_peaks signal ws ov sb tb ppb = Inr peaks \<Longrightarrow> distinct (map fst peaks)"
  by (erule to_peaks_Inr) (rule peak_map_distinct)

lemma to_peaks_frames:
  assumes "to_peaks signal ws ov sb tb ppb = Inr peaks" and "(f, fr) \<in> set peaks"
  shows "distinct fr" and "fr \<noteq> []"
  using assms by (auto elim!: to_peaks_Inr dest: peak_map_frames_distinct)

subsection \<open>No peak is selected when \<open>peaks_per_bin = 0\<close>\<close>

lemma max_intensities_nonpos: "ppb \<le> 0 \<Longrightarrow> max_intensities bins ppb = []"
  by (induction bins) (auto simp: max_intensities_def nlargest_nonpos)

lemma peak_selector_zero:
  assumes "peak_selector M n sb tb 0 = Inr peaks"
  shows "peaks = []"
  unfolding peak_selector_Inr(1) [OF assms] by (simp add: max_intensities_nonpos)

lemma to_peaks_zero: "to_peaks signal ws ov sb tb 0 = Inr peaks \<Longrightarrow> peaks = []"
  by (erule to_peaks_Inr) (rule peak_selector_zero)

subsection \<open>No shared frequency index\<close>

lemma delay_pairs_disjoint:
  assumes "fst ` set base_peaks \<inter> fst ` set other_peaks = {}"
  shows "delay_pairs base_peaks other_peaks = []"
proof -
  have "map_of base_peaks key = None" if "(key, fr) \<in> set other_peaks" for key fr
  proof -
    from that have "key \<in> fst ` set other_peaks" by (rule key_in_keys)
    with assms have "key \<notin> fst ` set base_peaks" by blast
    then show ?thesis by (simp add: map_of_eq_None_iff)
  qed
  then show ?thesis
    by (auto simp: delay_pairs_def)
qed

lemma delay_estimator_disjoint:
  "fst ` set base_peaks \<inter> fst ` set other_peaks = {} \<Longrightarrow>
     delay_estimator base_peaks other_peaks = Inl ValueError"
  by (simp add: delay_estimator_def delay_histogram_def delay_pairs_disjoint)

section \<open>Properties of the pipeline\<close>

subsection \<open>Concrete runs\<close>

lemma rolling_window_pair: "rolling_window [1, 1] 2 0 True = Inr ([[1, 1]], 1)"
  by code_simp

lemma rolling_window_four: "rolling_window [a, b, c, d] 4 0 True = Inr ([[a, b, c, d]], 1)"
  by (simp add: rolling_window_def as_strided_def Let_def upt_conv_Cons eval_nat_numeral)

lemma to_peaks_pair:
  "to_peaks [1, 1] 2 0 sb tb ppb = peak_selector [[2]] 1 sb tb ppb"
  by (simp add: to_peaks_def rolling_window_pair apply_along_axis_def fourier_magnitudes_pair)

lemma to_peaks_ones:
  "to_peaks [1, 1, 1, 1] 4 0 sb tb ppb = peak_selector [[4, 0]] 1 sb tb ppb"
  by (simp add: to_peaks_def rolling_window_four apply_along_axis_def fourier_magnitudes_ones)

lemma to_peaks_alt:
  "to_peaks [1, 0, - 1, 0] 4 0 sb tb ppb = peak_selector [[0, 2]] 1 sb tb ppb"
  by (simp add: to_peaks_def rolling_window_four apply_along_axis_def fourier_magnitudes_alt)

lemma peak_selector_ones: "peak_selector [[4, 0]] 1 2 1 1 = Inr [(0, [0])]"
  by code_simp

lemma peak_selector_alt: "peak_selector [[0, 2]] 1 2 1 1 = Inr [(1, [0])]"
  by code_simp

lemma peak_selector_pair: "peak_selector [[2]] 1 1 1 1 = Inr [(0, [0])]"
  by code_simp

lemma peak_selector_pair_zero: "peak_selector [[2]] 1 1 1 0 = Inr []"
  by code_simp

text \<open>
  Claim C10.  With \<open>peaks_per_bin = 0\<close> the peak selector selects nothing: it returns the
  empty peak map, unless \<open>spectral_band = 0\<close> makes the binning divide by zero.  A peak map
  computed by \<open>to_peaks\<close> is therefore empty, and \<open>synchronize\<close> fails for every pair of
  signals, also for a signal paired with itself; when both peak maps are computed, the failure
  is the \<open>ValueError\<close> of \<open>max\<close> on the empty delay histogram.
\<close>

theorem C10_zero_peaks_per_bin:
  "(peak_selector magnitudes num_windows spectral_band temporal_band 0 = Inr [] \<or>
    peak_selector magnitudes num_windows spectral_band temporal_band 0 = Inl ZeroDivisionError) \<and>
   (spectral_band \<noteq> 0 \<longrightarrow>
      peak_selector magnitudes num_windows spectral_band temporal_band 0 = Inr []) \<and>
   (\<forall>peaks. to_peaks signal window_size overlap spectral_band temporal_band 0 = Inr peaks \<longrightarrow>
      peaks = []) \<and>
   (\<exists>e. synchronize base_signal other_signal window_size overlap spectral_band temporal_band 0
           = Inl e) \<and>
   ((\<exists>p. to_peaks base_signal window_size overlap spectral_band temporal_band 0 = Inr p) \<and>
    (\<exists>p. to_peaks other_signal window_size overlap spectral_band temporal_band 0 = Inr p) \<longrightarrow>
      synchronize base_signal other_signal window_size overlap spectral_band temporal_band 0
        = Inl ValueError) \<and>
   (\<exists>e. synchronize signal signal window_size overlap spectral_band temporal_band 0 = Inl e)"
proof -
  have sel: "peak_selector magnitudes num_windows spectral_band temporal_band 0 = Inr [] \<or>
    peak_selector magnitudes num_windows spectral_band temporal_band 0 = Inl ZeroDivisionError"
  proof (cases "peak_selector magnitudes num_windows spectral_band temporal_band 0")
    case (Inl e)
    then show ?thesis by (auto dest: peak_selector_Inl)
  next
    case (Inr peaks)
    then show ?thesis by (auto dest: peak_selector_zero)
  qed
  have sel': "peak_selector magnitudes num_windows spectral_band temporal_band 0 = Inr []"
    if "spectral_band \<noteq> 0"
    using sel that by (auto dest: peak_selector_Inl)
  have sync: "\<exists>e. synchronize b s window_size overlap spectral_band temporal_band 0 = Inl e" for b s
    by (auto simp: synchronize_def delay_estimator_disjoint split: sum.splits dest!: to_peaks_zero)
  have val: "synchronize base_signal other_signal window_size overlap spectral_band temporal_band 0
        = Inl ValueError"
    if "\<exists>p. to_peaks base_signal window_size overlap spectral_band temporal_band 0 = Inr p"
       "\<exists>p. to_peaks other_signal window_size overlap spectral_band temporal_band 0 = Inr p"
  proof -
    from that obtain p q
      where p: "to_peaks base_signal window_size overlap spectral_band temporal_band 0 = Inr p"
        and q: "to_peaks other_signal window_size overlap spectral_band temporal_band 0 = Inr q"
      by blast
    from to_peaks_zero [OF p] to_peaks_zero [OF q] p q show ?thesis
      by (simp add: synchronize_def delay_estimator_disjoint)
  qed
  from sel sel' sync val show ?thesis by (auto dest: to_peaks_zero)
qed

theorem C10_zero_peaks_per_bin_witness:
  "(1 :: int) \<noteq> 0 \<and> peak_selector [[2]] 1 1 1 0 = Inr [] \<and>
   to_peaks [1, 1] 2 0 1 1 0 = Inr [] \<and>
   synchronize [1, 1] [1, 1] 2 0 1 1 0 = Inl ValueError"
  using C10_zero_peaks_per_bin [of "[[2]]" 1 1 1 "[1, 1]" 2 0 "[1, 1]" "[1, 1]"]
  by (simp add: to_peaks_pair peak_selector_pair_zero)

text \<open>
  Claim C2, as the specification states it, fails.  The frames \<open>[1, 1, 1, 1]\<close> and
  \<open>[1, 0, -1, 0]\<close> have their peaks at the frequency indices \<open>0\<close> and \<open>1\<close>; the peak maps share
  no frequency index, and \<open>synchronize\<close> fails with the \<open>ValueError\<close> that \<open>max\<close> raises on the
  empty histogram, not with \<open>NoCommonLandmarks\<close>.
\<close>

theorem C2_synchronize_counterexample:
  "to_peaks [1, 1, 1, 1] 4 0 2 1 1 = Inr [(0, [0])] \<and>
   to_peaks [1, 0, - 1, 0] 4 0 2 1 1 = Inr [(1, [0])] \<and>
   fst ` set [(0 :: int, [0 :: int])] \<inter> fst ` set [(1 :: int, [0 :: int])] = {} \<and>
   synchronize [1, 1, 1, 1] [1, 0, - 1, 0] 4 0 2 1 1 = Inl ValueError \<and>
   synchronize [1, 1, 1, 1] [1, 0, - 1, 0] 4 0 2 1 1 \<noteq> Inl NoCommonLandmarks"
  by (simp add: synchronize_def to_peaks_ones to_peaks_alt peak_selector_ones peak_selector_alt
      delay_estimator_disjoint)

text \<open>
  Claim C2, amended.  When both peak maps are computed and share no frequency index,
  \<open>synchronize\<close> returns no delay: it fails with \<open>ValueError\<close>.
\<close>

theorem C2_synchronize_disjoint:
  assumes "to_peaks base_signal window_size overlap spectral_band temporal_band peaks_per_bin
             = Inr base_peaks"
    and "to_peaks other_signal window_size overlap spectral_band temporal_band peaks_per_bin
             = Inr other_peaks"
    and "fst ` set base_peaks \<inter> fst ` set other_peaks = {}"
  shows "synchronize base_signal other_signal window_size overlap spectral_band temporal_band
           peaks_per_bin = Inl ValueError"
  using assms by (simp add: synchronize_def delay_estimator_disjoint)

theorem C2_synchronize_disjoint_witness:
  "to_peaks [1, 0, - 1, 0] 4 0 2 1 1 = Inr [(1, [0])] \<and>
   to_peaks [1, 1, 1, 1] 4 0 2 1 1 = Inr [(0, [0])] \<and>
   fst ` set [(1 :: int, [0 :: int])] \<inter> fst ` set [(0 :: int, [0 :: int])] = {} \<and>
   synchronize [1, 0, - 1, 0] [1, 1, 1, 1] 4 0 2 1 1 = Inl ValueError"
proof -
  have a: "to_peaks [1, 0, - 1, 0] 4 0 2 1 1 = Inr [(1, [0])]"
    by (simp add: to_peaks_alt peak_selector_alt)
  have b: "to_peaks [1, 1, 1, 1] 4 0 2 1 1 = Inr [(0, [0])]"
    by (simp add: to_peaks_ones peak_selector_ones)
  have c: "fst ` set [(1 :: int, [0 :: int])] \<inter> fst ` set [(0 :: int, [0 :: int])] = {}"
    by simp
  from C2_synchronize_disjoint [OF a b c] a b c show ?thesis by simp
qed

subsection \<open>A peak map against itself\<close>

lemma self_pairs_count:
  fixes ws :: "int list"
  assumes "distinct ws"
  shows "length (filter (\<lambda>(a, b). a - b = d) (List.product ws ws)) =
           card {b \<in> set ws. b + d \<in> set ws}"
proof -
  have "distinct (List.product ws ws)"
    using assms by (simp add: distinct_product)
  then have "length (filter (\<lambda>(a, b). a - b = d) (List.product ws ws)) =
               card ({p. case p of (a, b) \<Rightarrow> a - b = d} \<inter> set (List.product ws ws))"
    by (rule distinct_length_filter)
  also have "{p. case p of (a, b) \<Rightarrow> a - b = d} \<inter> set (List.product ws ws) =
               (\<lambda>b. (b + d, b)) ` {b \<in> set ws. b + d \<in> set ws}"
    by (auto simp: image_iff)
  also have "card \<dots> = card {b \<in> set ws. b + d \<in> set ws}"
    by (rule card_image) (simp add: inj_on_def)
  finally show ?thesis .
qed

lemma self_pairs_zero:
  "distinct ws \<Longrightarrow> length (filter (\<lambda>(a, b). a - b = 0) (List.product ws ws)) = length ws"
  for ws :: "int list"
  using self_pairs_count [of ws 0] by (simp add: distinct_card)

lemma self_pairs_nonzero:
  fixes ws :: "int list"
  assumes "distinct ws" and "ws \<noteq> []" and "d \<noteq> 0"
  shows "length (filter (\<lambda>(a, b). a - b = d) (List.product ws ws)) < length ws"
proof -
  have "\<exists>b \<in> set ws. b + d \<notin> set ws"
  proof (cases "0 < d")
    case True
    from assms(2) have "Max (set ws) \<in> set ws" by simp
    moreover have "Max (set ws) + d \<notin> set ws"
    proof
      assume "Max (set ws) + d \<in> set ws"
      then have "Max (set ws) + d \<le> Max (set ws)" by (intro Max_ge) simp_all
      with True show False by simp
    qed
    ultimately show ?thesis by blast
  next
    case False
    with assms(3) have neg: "d < 0" by simp
    from assms(2) have "Min (set ws) \<in> set ws" by simp
    moreover have "Min (set ws) + d \<notin> set ws"
    proof
      assume "Min (set ws) + d \<in> set ws"
      then have "Min (set ws) \<le> Min (set ws) + d" by (intro Min_le) simp_all
      with neg show False by simp
    qed
    ultimately show ?thesis by blast
  qed
  then have "{b \<in> set ws. b + d \<in> set ws} \<subset> set ws" by blast
  then have "card {b \<in> set ws. b + d \<in> set ws} < card (set ws)"
    by (simp add: psubset_card_mono)
  with assms(1) show ?thesis
    using self_pairs_count [of ws d] by (simp add: distinct_card)
qed

lemma self_votes_less:
  assumes keys: "distinct (map fst peaks)"
    and frames: "\<forall>(f, ws) \<in> set peaks. distinct ws \<and> ws \<noteq> []"
    and "peaks \<noteq> []" and "d \<noteq> 0"
  shows "offset_votes peaks peaks d < offset_votes peaks peaks 0"
proof -
  have fr: "distinct (lookup peaks f) \<and> lookup peaks f \<noteq> []" if "f \<in> fst ` set peaks" for f
    using frames lookup_key_member [OF that] by blast
  have "(\<Sum>f \<in> fst ` set peaks.
           length (filter (\<lambda>(a, b). a - b = d) (List.product (lookup peaks f) (lookup peaks f))))
        < (\<Sum>f \<in> fst ` set peaks.
           length (filter (\<lambda>(a, b). a - b = 0) (List.product (lookup peaks f) (lookup peaks f))))"
  proof (rule sum_strict_mono)
    show "finite (fst ` set peaks)" by simp
    show "fst ` set peaks \<noteq> {}" using assms(3) by simp
  next
    fix f assume "f \<in> fst ` set peaks"
    from fr [OF this] assms(4)
      self_pairs_zero [of "lookup peaks f"] self_pairs_nonzero [of "lookup peaks f" d] show
      "length (filter (\<lambda>(a, b). a - b = d) (List.product (lookup peaks f) (lookup peaks f)))
       < length (filter (\<lambda>(a, b). a - b = 0) (List.product (lookup peaks f) (lookup peaks f)))"
      by simp
  qed
  then show ?thesis by (simp add: offset_votes_def)
qed

lemma self_votes_zero_pos:
  assumes keys: "distinct (map fst peaks)"
    and frames: "\<forall>(f, ws) \<in> set peaks. distinct ws \<and> ws \<noteq> []"
    and "peaks \<noteq> []"
  shows "0 < offset_votes peaks peaks 0"
  using self_votes_less [OF keys frames assms(3), of 1] by simp

lemma delay_estimator_self:
  assumes keys: "distinct (map fst peaks)"
    and frames: "\<forall>(f, ws) \<in> set peaks. distinct ws \<and> ws \<noteq> []"
  shows "delay_estimator peaks peaks = (if peaks = [] then Inl ValueError else Inr 0)"
proof (cases "peaks = []")
  case True
  then show ?thesis by (simp add: delay_estimator_def delay_histogram_def delay_pairs_def)
next
  case False
  have pos: "0 < offset_votes peaks peaks 0"
    using keys frames False by (rule self_votes_zero_pos)
  then have "0 \<in> fst ` set (delay_histogram peaks peaks)"
    by (simp add: delay_histogram_keys [OF keys])
  then have "delay_histogram peaks peaks \<noteq> []" by auto
  then obtain k where k: "max_by_count (delay_histogram peaks peaks) = Inr k"
    using max_by_count_empty [of "delay_histogram peaks peaks"]
    by (cases "max_by_count (delay_histogram peaks peaks)") auto
  from max_by_count_Inr [OF k delay_histogram_distinct]
  have "count_of (delay_histogram peaks peaks) 0 \<le> count_of (delay_histogram peaks peaks) k"
    by blast
  then have "offset_votes peaks peaks 0 \<le> offset_votes peaks peaks k"
    by (simp add: delay_histogram_count [OF keys])
  moreover have "offset_votes peaks peaks k < offset_votes peaks peaks 0" if "k \<noteq> 0"
    using keys frames False that by (rule self_votes_less)
  ultimately have "k = 0" by force
  with k False show ?thesis by (simp add: delay_estimator_def)
qed

lemma delay_estimator_Nil:
  "delay_estimator [] other_peaks = Inl ValueError" "delay_estimator base_peaks [] = Inl ValueError"
  by (simp_all add: delay_estimator_disjoint)

lemma synchronize_Inr:
  assumes "synchronize base_signal other_signal ws ov sb tb ppb = Inr d"
  obtains base_peaks other_peaks
  where "to_peaks base_signal ws ov sb tb ppb = Inr base_peaks"
    and "to_peaks other_signal ws ov sb tb ppb = Inr other_peaks"
    and "delay_estimator base_peaks other_peaks = Inr d"
    and "base_peaks \<noteq> []" and "other_peaks \<noteq> []"
proof -
  from assms obtain p q
    where p: "to_peaks base_signal ws ov sb tb ppb = Inr p"
      and q: "to_peaks other_signal ws ov sb tb ppb = Inr q"
      and d: "delay_estimator p q = Inr d"
    by (auto simp: synchronize_def split: sum.splits)
  from d have "p \<noteq> []" "q \<noteq> []"
    by (auto simp: delay_estimator_Nil)
  with p q d show thesis by (rule that)
qed

lemma synchronize_self:
  assumes "to_peaks signal ws ov sb tb ppb = Inr peaks" and "peaks \<noteq> []"
  shows "synchronize signal signal ws ov sb tb ppb = Inr 0"
proof -
  have "distinct (map fst peaks)"
    using assms(1) by (rule to_peaks_distinct)
  moreover have "\<forall>(f, fr) \<in> set peaks. distinct fr \<and> fr \<noteq> []"
    using to_peaks_frames [OF assms(1)] by blast
  ultimately have "delay_estimator peaks peaks = Inr 0"
    using assms(2) by (simp add: delay_estimator_self)
  with assms(1) show ?thesis by (simp add: synchronize_def)
qed

subsection \<open>A run with two frames\<close>

lemma fourier_magnitudes_zeros: "fourier_magnitudes [0, 0] = Inr [0]"
  using round2_of_int [of 0] by (simp add: fourier_magnitudes_2)

lemma rolling_window_early: "rolling_window [1, 1, 0, 0] 2 0 True = Inr ([[1, 1], [0, 0]], 2)"
  by code_simp

lemma rolling_window_late: "rolling_window [0, 0, 1, 1] 2 0 True = Inr ([[0, 0], [1, 1]], 2)"
  by code_simp

lemma to_peaks_early: "to_peaks [1, 1, 0, 0] 2 0 1 2 1 = Inr [(0, [0])]"
proof -
  have "peak_selector [[2], [0]] 2 1 2 1 = Inr [(0, [0])]" by code_simp
  then show ?thesis
    by (simp add: to_peaks_def rolling_window_early apply_along_axis_def fourier_magnitudes_pair
        fourier_magnitudes_zeros)
qed

lemma to_peaks_late: "to_peaks [0, 0, 1, 1] 2 0 1 2 1 = Inr [(0, [1])]"
proof -
  have "peak_selector [[0], [2]] 2 1 2 1 = Inr [(0, [1])]" by code_simp
  then show ?thesis
    by (simp add: to_peaks_def rolling_window_late apply_along_axis_def fourier_magnitudes_pair
        fourier_magnitudes_zeros)
qed

lemma synchronize_early_late: "synchronize [1, 1, 0, 0] [0, 0, 1, 1] 2 0 1 2 1 = Inr 1"
proof -
  have "delay_estimator [(0, [0])] [(0, [1])] = Inr 1" by code_simp
  then show ?thesis by (simp add: synchronize_def to_peaks_early to_peaks_late)
qed

text \<open>
  Claim C9.  When \<open>synchronize\<close> returns a delay for a signal, paired with any signal in either
  order, then it returns the delay \<open>0\<close> for that signal paired with itself under the same
  parameters; in particular a delay returned for a signal against itself is \<open>0\<close>.
\<close>

theorem C9_synchronize_self_zero:
  "(synchronize signal signal window_size overlap spectral_band temporal_band peaks_per_bin = Inr d
      \<longrightarrow> d = 0) \<and>
   (synchronize signal other_signal window_size overlap spectral_band temporal_band peaks_per_bin
        = Inr d' \<or>
    synchronize other_signal signal window_size overlap spectral_band temporal_band peaks_per_bin
        = Inr d'
      \<longrightarrow> synchronize signal signal window_size overlap spectral_band temporal_band peaks_per_bin
            = Inr 0)"
proof -
  have a: "synchronize signal signal window_size overlap spectral_band temporal_band peaks_per_bin
             = Inr 0"
    if "synchronize signal s window_size overlap spectral_band temporal_band peaks_per_bin = Inr e"
    for s e
    using that by (elim synchronize_Inr) (rule synchronize_self)
  have b: "synchronize signal signal window_size overlap spectral_band temporal_band peaks_per_bin
             = Inr 0"
    if "synchronize s signal window_size overlap spectral_band temporal_band peaks_per_bin = Inr e"
    for s e
    using that by (elim synchronize_Inr) (rule synchronize_self)
  from a [of signal d] a [of other_signal d'] b [of other_signal d'] show ?thesis by auto
qed

theorem C9_synchronize_self_zero_witness:
  "synchronize [1, 1, 0, 0] [0, 0, 1, 1] 2 0 1 2 1 = Inr 1 \<and>
   synchronize [1, 1, 0, 0] [1, 1, 0, 0] 2 0 1 2 1 = Inr 0 \<and>
   synchronize [0, 0, 1, 1] [0, 0, 1, 1] 2 0 1 2 1 = Inr 0"
  using C9_synchronize_self_zero [of "[1, 1, 0, 0]" 2 0 1 2 1 0 "[0, 0, 1, 1]" 1]
    C9_synchronize_self_zero [of "[0, 0, 1, 1]" 2 0 1 2 1 0 "[1, 1, 0, 0]" 1]
  by (simp add: synchronize_early_late)

subsection \<open>Cells and peak records\<close>

lemma zip_arange: "zip (arange n) M = map (\<lambda>w. (int w, M ! w)) [0..<min (nat n) (length M)]"
  by (rule nth_equalityI) (simp_all add: arange_def)

lemma index_snd: "(\<lambda>(v, w, f). (w, f)) = snd"
  by (auto simp: fun_eq_iff)

lemma cells_matrix_cells: "map snd (cells M n) = matrix_cells M n"
  using cells_index [of M n]
  unfolding index_snd zip_arange matrix_cells_def
  by (simp add: map_concat comp_def)

lemma cells_magnitude: "x \<in> set (cells M n) \<Longrightarrow> fst x = magnitude M (snd x)"
  by (cases x) (simp add: set_cells magnitude_def)

lemma bin_of_index: "bin_of tb sb x = bin_index tb sb (snd x)"
  by (cases x) (simp add: bin_of_def bin_index_def)

lemma bin_cells_records:
  "bin_cells M n tb sb b = map snd (filter (\<lambda>x. bin_of tb sb x = b) (cells M n))"
  by (simp add: bin_cells_def cells_matrix_cells [symmetric] filter_map comp_def bin_of_index)

lemma distinct_matrix_cells: "distinct (matrix_cells M n)"
  using distinct_cells_index [of M n] unfolding index_snd cells_matrix_cells .

subsection \<open>The entries of the peak map\<close>

lemma peak_entries_setdefault_append:
  "mset (peak_entries (setdefault_append f w d)) = add_mset (w, f) (mset (peak_entries d))"
  by (induction d) (auto simp: peak_entries_def)

lemma peak_entries_fold:
  "mset (peak_entries (fold (\<lambda>x. setdefault_append (snd (snd x)) (fst (snd x))) xs d)) =
     mset (peak_entries d) + mset (map snd xs)"
  by (induction xs arbitrary: d) (simp_all add: peak_entries_setdefault_append)

lemma peak_entries_selected:
  assumes "peak_selector M n sb tb ppb = Inr peaks"
  shows "mset (peak_entries peaks) = mset (map snd (max_intensities (spectro_bins M n sb tb) ppb))"
  unfolding peak_selector_Inr(1) [OF assms] peak_entries_fold by (simp add: peak_entries_def)

lemma peak_entries_bin:
  assumes "peak_selector M n sb tb ppb = Inr peaks"
  shows "mset (filter (\<lambda>c. bin_index tb sb c = b) (peak_entries peaks)) =
           mset (map snd (nlargest ppb (filter (\<lambda>x. bin_of tb sb x = b) (cells M n))))"
proof -
  have "mset (filter (\<lambda>c. bin_index tb sb c = b) (peak_entries peaks)) =
          filter_mset (\<lambda>c. bin_index tb sb c = b) (mset (peak_entries peaks))"
    by simp
  also have "\<dots> = mset (filter (\<lambda>c. bin_index tb sb c = b)
                      (map snd (max_intensities (spectro_bins M n sb tb) ppb)))"
    unfolding peak_entries_selected [OF assms] by simp
  also have "filter (\<lambda>c. bin_index tb sb c = b)
                      (map snd (max_intensities (spectro_bins M n sb tb) ppb)) =
             map snd (filter (\<lambda>x. bin_of tb sb x = b)
                      (max_intensities (spectro_bins M n sb tb) ppb))"
    by (simp add: filter_map comp_def bin_of_index)
  finally show ?thesis by (simp only: filter_max_intensities)
qed

lemma distinct_peak_entries:
  assumes "peak_selector M n sb tb ppb = Inr peaks"
  shows "distinct (peak_entries peaks)"
proof -
  have "distinct (map snd (max_intensities (spectro_bins M n sb tb) ppb))"
    using distinct_max_intensities_index [of M n sb tb ppb] unfolding index_snd .
  with peak_entries_selected [OF assms] show ?thesis
    by (metis mset_eq_imp_distinct_iff)
qed

lemma cells_Nil_iff: "cells M n = [] \<longleftrightarrow> matrix_cells M n = []"
  using cells_matrix_cells [of M n] by (metis map_is_Nil_conv)

lemma peak_entries_bin_top:
  assumes sel: "peak_selector M n sb tb ppb = Inr peaks"
  shows "set (filter (\<lambda>c. bin_index tb sb c = b) (peak_entries peaks)) \<subseteq> set (bin_cells M n tb sb b)"
    and "length (filter (\<lambda>c. bin_index tb sb c = b) (peak_entries peaks)) =
           min (nat ppb) (length (bin_cells M n tb sb b))"
    and "\<forall>x \<in> set (filter (\<lambda>c. bin_index tb sb c = b) (peak_entries peaks)).
         \<forall>y \<in> set (bin_cells M n tb sb b) -
               set (filter (\<lambda>c. bin_index tb sb c = b) (peak_entries peaks)).
           magnitude M y \<le> magnitude M x"
proof -
  let ?X = "filter (\<lambda>x. bin_of tb sb x = b) (cells M n)"
  let ?N = "nlargest ppb ?X"
  let ?sel = "filter (\<lambda>c. bin_index tb sb c = b) (peak_entries peaks)"
  have m: "mset ?sel = mset (map snd ?N)"
    using sel by (rule peak_entries_bin)
  have s: "set ?sel = snd ` set ?N"
    using arg_cong [OF m, of set_mset] by simp
  have c: "bin_cells M n tb sb b = map snd ?X"
    by (rule bin_cells_records)
  have sub: "set ?N \<subseteq> set ?X"
    by (rule set_nlargest_subset)
  show "set ?sel \<subseteq> set (bin_cells M n tb sb b)"
    unfolding s c using sub by auto
  have "length ?sel = length (map snd ?N)"
    using m by (rule mset_eq_length)
  then show "length ?sel = min (nat ppb) (length (bin_cells M n tb sb b))"
    unfolding c by (simp add: length_nlargest)
  show "\<forall>x \<in> set ?sel. \<forall>y \<in> set (bin_cells M n tb sb b) - set ?sel.
          magnitude M y \<le> magnitude M x"
  proof (intro ballI)
    fix x y
    assume "x \<in> set ?sel" and y: "y \<in> set (bin_cells M n tb sb b) - set ?sel"
    then obtain x' where x': "x' \<in> set ?N" "x = snd x'"
      unfolding s by blast
    from y obtain y' where y': "y' \<in> set ?X" "y = snd y'" "y' \<notin> set ?N"
      unfolding s c by auto
    from y'(1,3) have "count (mset ?N) y' < count (mset ?X) y'"
      by (simp add: count_eq_zero_iff [THEN iffD2] count_greater_zero_iff)
    then have "y' \<in># mset ?X - mset ?N"
      by (simp add: in_diff_count)
    with x'(1) have "fst y' \<le> fst x'"
      by (rule nlargest_ge)
    moreover from x'(1) sub have "x' \<in> set (cells M n)" by auto
    moreover from y'(1) have "y' \<in> set (cells M n)" by auto
    ultimately show "magnitude M y \<le> magnitude M x"
      using x'(2) y'(2) by (simp add: cells_magnitude)
  qed
qed

text \<open>
  Claim C4.  The binning divides by \<open>spectral_band\<close>: when it is \<open>0\<close> and the matrix has a
  cell, the selector fails with \<open>ZeroDivisionError\<close>.  Otherwise it returns a peak map with
  one key per frequency index and no empty list, and the entries \<open>(frame_index,
  frequency_index)\<close> of the map are cells of the matrix, each at most once.  For every bin,
  the entries that the specification assigns to the bin are \<open>peaks_per_bin\<close> cells of the
  bin (all of them when the bin has fewer), and no cell of the bin that is left out has a
  larger magnitude than one that is selected.
\<close>

theorem C4_peak_selector_selection:
  "(spectral_band = 0 \<and> matrix_cells magnitudes num_windows \<noteq> [] \<longrightarrow>
      peak_selector magnitudes num_windows spectral_band temporal_band peaks_per_bin
        = Inl ZeroDivisionError) \<and>
   (spectral_band \<noteq> 0 \<or> matrix_cells magnitudes num_windows = [] \<longrightarrow>
      (\<exists>peaks.
         peak_selector magnitudes num_windows spectral_band temporal_band peaks_per_bin
           = Inr peaks \<and>
         distinct (map fst peaks) \<and> (\<forall>(f, ws) \<in> set peaks. ws \<noteq> []) \<and>
         distinct (peak_entries peaks) \<and>
         set (peak_entries peaks) \<subseteq> set (matrix_cells magnitudes num_windows) \<and>
         (\<forall>b. set (filter (\<lambda>c. bin_index temporal_band spectral_band c = b) (peak_entries peaks))
                \<subseteq> set (bin_cells magnitudes num_windows temporal_band spectral_band b) \<and>
              length (filter (\<lambda>c. bin_index temporal_band spectral_band c = b)
                        (peak_entries peaks)) =
                min (nat peaks_per_bin)
                    (length (bin_cells magnitudes num_windows temporal_band spectral_band b)) \<and>
              (\<forall>x \<in> set (filter (\<lambda>c. bin_index temporal_band spectral_band c = b)
                             (peak_entries peaks)).
               \<forall>y \<in> set (bin_cells magnitudes num_windows temporal_band spectral_band b) -
                     set (filter (\<lambda>c. bin_index temporal_band spectral_band c = b)
                            (peak_entries peaks)).
                 magnitude magnitudes y \<le> magnitude magnitudes x))))"
proof (intro conjI impI)
  assume "spectral_band = 0 \<and> matrix_cells magnitudes num_windows \<noteq> []"
  then show "peak_selector magnitudes num_windows spectral_band temporal_band peaks_per_bin
               = Inl ZeroDivisionError"
    by (simp add: peak_selector_def cells_Nil_iff)
next
  assume "spectral_band \<noteq> 0 \<or> matrix_cells magnitudes num_windows = []"
  then have "spectral_band \<noteq> 0 \<or> cells magnitudes num_windows = []"
    by (simp add: cells_Nil_iff)
  then obtain peaks
    where p: "peak_selector magnitudes num_windows spectral_band temporal_band peaks_per_bin
                = Inr peaks"
    using peak_selector_total by blast
  have 1: "distinct (map fst peaks)"
    using p by (rule peak_map_distinct)
  have 2: "\<forall>(f, ws) \<in> set peaks. ws \<noteq> []"
    using peak_map_frames_distinct(2) [OF p] by blast
  have 3: "distinct (peak_entries peaks)"
    using p by (rule distinct_peak_entries)
  have "set (peak_entries peaks) =
          snd ` set (max_intensities (spectro_bins magnitudes num_windows spectral_band
                       temporal_band) peaks_per_bin)"
    using arg_cong [OF peak_entries_selected [OF p], of set_mset] by simp
  also have "\<dots> \<subseteq> snd ` set (cells magnitudes num_windows)"
    using set_max_intensities by (rule image_mono)
  also have "\<dots> = set (matrix_cells magnitudes num_windows)"
    using arg_cong [OF cells_matrix_cells [of magnitudes num_windows], of set] by simp
  finally have 4: "set (peak_entries peaks) \<subseteq> set (matrix_cells magnitudes num_windows)" .
  from p 1 2 3 4 peak_entries_bin_top [OF p]
  show "\<exists>peaks.
         peak_selector magnitudes num_windows spectral_band temporal_band peaks_per_bin
           = Inr peaks \<and>
         distinct (map fst peaks) \<and> (\<forall>(f, ws) \<in> set peaks. ws \<noteq> []) \<and>
         distinct (peak_entries peaks) \<and>
         set (peak_entries peaks) \<subseteq> set (matrix_cells magnitudes num_windows) \<and>
         (\<forall>b. set (filter (\<lambda>c. bin_index temporal_band spectral_band c = b) (peak_entries peaks))
                \<subseteq> set (bin_cells magnitudes num_windows temporal_band spectral_band b) \<and>
              length (filter (\<lambda>c. bin_index temporal_band spectral_band c = b)
                        (peak_entries peaks)) =
                min (nat peaks_per_bin)
                    (length (bin_cells magnitudes num_windows temporal_band spectral_band b)) \<and>
              (\<forall>x \<in> set (filter (\<lambda>c. bin_index temporal_band spectral_band c = b)
                             (peak_entries peaks)).
               \<forall>y \<in> set (bin_cells magnitudes num_windows temporal_band spectral_band b) -
                     set (filter (\<lambda>c. bin_index temporal_band spectral_band c = b)
                            (peak_entries peaks)).
                 magnitude magnitudes y \<le> magnitude magnitudes x))"
    by blast
qed

theorem C4_peak_selector_selection_witness:
  "(2 :: int) \<noteq> 0 \<and>
   bin_cells [[1, 3], [2, 0]] 2 2 2 (0, 0) = [(0, 0), (0, 1), (1, 0), (1, 1)] \<and>
   (\<exists>peaks. peak_selector [[1, 3], [2, 0]] 2 2 2 2 = Inr peaks \<and>
      distinct (peak_entries peaks) \<and>
      length (filter (\<lambda>c. bin_index 2 2 c = (0, 0)) (peak_entries peaks)) = 2)"
proof -
  have c: "bin_cells [[1, 3], [2, 0]] 2 2 2 (0, 0) = [(0, 0), (0, 1), (1, 0), (1, 1)]"
    by code_simp
  from C4_peak_selector_selection [where spectral_band = 2 and magnitudes = "[[1, 3], [2, 0]]"
      and num_windows = 2 and temporal_band = 2 and peaks_per_bin = 2]
  obtain peaks where p: "peak_selector [[1, 3], [2, 0]] 2 2 2 2 = Inr peaks"
    and d: "distinct (peak_entries peaks)"
    and b: "\<forall>b. length (filter (\<lambda>c. bin_index 2 2 c = b) (peak_entries peaks)) =
                 min (nat 2) (length (bin_cells [[1, 3], [2, 0]] 2 2 2 b))"
    by auto
  from b have "length (filter (\<lambda>c. bin_index 2 2 c = (0, 0)) (peak_entries peaks)) =
                 min (nat 2) (length (bin_cells [[1, 3], [2, 0]] 2 2 2 (0, 0)))"
    by (rule spec)
  with p d c show ?thesis by simp
qed

subsection \<open>Counting the entries of a frequency index\<close>









subsection \<open>The rank of a selected magnitude\<close>




lemma bin_magnitudes:
  "map (magnitude M) (bin_cells M n tb sb b) =
     map fst (filter (\<lambda>x. bin_of tb sb x = b) (cells M n))"
  unfolding bin_cells_records by (auto dest: cells_magnitude)


subsection \<open>A run with a negative temporal band\<close>






end
